theory Spec2Isabelle
  imports Complex_Main
begin

section \<open>Conventions of the embedding\<close>

text \<open>
  The simulator is Python on top of numpy. A float64 value is modelled by a \<^typ>\<open>real\<close> and a
  complex128 value by a \<^typ>\<open>complex\<close>, so every result below is about exact arithmetic:
  rounding is not part of the model. A one-dimensional array is a list, a two-dimensional
  array is the list of its rows. Every \<^verbatim>\<open>assert\<close> of the source is a branch returning
  \<open>Inl AssertionError\<close>; \<^verbatim>\<open>math.log2\<close> on a non-positive number raises \<^verbatim>\<open>ValueError\<close>.
\<close>

datatype error = AssertionError | ValueError

section \<open>utils.py\<close>

definition SQRT1_2 :: real where
  "SQRT1_2 = 1 / sqrt 2"

text \<open>\<^verbatim>\<open>int(math.log2(p))\<close> for a positive integer \<open>p\<close>.\<close>

fun floor_log2 :: "nat \<Rightarrow> nat" where
  "floor_log2 p = (if p < 2 then 0 else Suc (floor_log2 (p div 2)))"

declare floor_log2.simps [simp del]

definition log2 :: "int \<Rightarrow> error + nat" where
  "log2 p =
     (if p \<le> 0 then Inl ValueError
      else (let n = floor_log2 (nat p)
            in if 2 ^ n = p then Inr n else Inl AssertionError))"

text \<open>\<^verbatim>\<open>np.kron\<close> on two-dimensional arrays.\<close>

definition kron :: "real list list \<Rightarrow> real list list \<Rightarrow> real list list" where
  "kron A B =
     concat (map (\<lambda>rowA. map (\<lambda>rowB. concat (map (\<lambda>a. map (\<lambda>b. a * b) rowB) rowA)) B) A)"

function hadamard :: "int \<Rightarrow> error + real list list" where
  "hadamard p =
     (case log2 p of
        Inl e \<Rightarrow> Inl e
      | Inr n \<Rightarrow>
          if n > 1 then
            (case hadamard 2 of
               Inl e \<Rightarrow> Inl e
             | Inr h2 \<Rightarrow>
                 (case hadamard (p div 2) of
                    Inl e \<Rightarrow> Inl e
                  | Inr hp \<Rightarrow> Inr (kron h2 hp)))
          else if n = 1 then Inr (map (map (\<lambda>x. SQRT1_2 * x)) [[1, 1], [1, - 1]])
          else Inr [[1]])"
  by pat_completeness auto

termination hadamard
proof (relation "measure nat")
  show "wf (measure nat)" by simp
next
  fix p :: int and n :: nat
  assume "log2 p = Inr n" and "1 < n"
  then have "p = 2 ^ n"
    by (auto simp: log2_def Let_def split: if_splits)
  moreover have "(2::int) ^ 2 \<le> 2 ^ n"
    using \<open>1 < n\<close> by (intro power_increasing) auto
  ultimately have "4 \<le> p" by simp
  then show "(2, p) \<in> measure nat" by simp
  show "(p div 2, p) \<in> measure nat" using \<open>4 \<le> p\<close> by simp
qed

declare hadamard.simps [simp del]

text \<open>
  \<^verbatim>\<open>phase_oracle(f, float)\<close>: the dtype assertion holds for \<^verbatim>\<open>float\<close>; the truth table is
  a sequence of integers. No check of the length is made.
\<close>

definition phase_oracle :: "int list \<Rightarrow> error + real list list" where
  "phase_oracle f =
     (if \<not> list_all (\<lambda>x. x = 0 \<or> x = 1) f then Inl AssertionError
      else (let p = length f;
                diagonal = map (\<lambda>x. (- 1) ^ nat x) f
            in Inr (map (\<lambda>i. map (\<lambda>j. if i = j then diagonal ! i else 0) [0..<p]) [0..<p])))"

section \<open>qubit.py\<close>

record Qubit =
  alpha :: complex
  beta :: complex

definition Qubit_init :: "complex \<Rightarrow> complex \<Rightarrow> Qubit" where
  "Qubit_init a b =
     (let squared_magnitude = (cmod a)\<^sup>2 + (cmod b)\<^sup>2
      in if squared_magnitude > 0
         then (let factor = 1 / sqrt squared_magnitude
               in \<lparr>alpha = complex_of_real factor * a, beta = complex_of_real factor * b\<rparr>)
         else \<lparr>alpha = complex_of_real SQRT1_2, beta = complex_of_real SQRT1_2\<rparr>)"

text \<open>\<^verbatim>\<open>Qubit.__array__\<close>\<close>

definition Qubit_array :: "Qubit \<Rightarrow> complex list" where
  "Qubit_array q = [alpha q, beta q]"

definition zero :: Qubit where
  "zero = Qubit_init 1 0"

definition one :: Qubit where
  "one = Qubit_init 0 1"

section \<open>quantum_register.py\<close>

record QuantumRegister =
  qr_n :: nat
  qr_state :: "complex list"

text \<open>The property \<^verbatim>\<open>p\<close>: the number of basis states.\<close>

definition qr_p :: "QuantumRegister \<Rightarrow> nat" where
  "qr_p r = 2 ^ qr_n r"

text \<open>The property \<^verbatim>\<open>real\<close>: the real part of a copy of the state.\<close>

definition qr_real :: "QuantumRegister \<Rightarrow> real list" where
  "qr_real r = map Re (qr_state r)"

definition qr_imag :: "QuantumRegister \<Rightarrow> real list" where
  "qr_imag r = map Im (qr_state r)"

text \<open>An element of the sequence given to the constructor: an integer, a string or a qubit.\<close>

datatype qubit_arg = QInt int | QStr string | QQubit Qubit

fun is_QQubit :: "qubit_arg \<Rightarrow> bool" where
  "is_QQubit (QQubit q) = True"
| "is_QQubit _ = False"

fun is_QInt :: "qubit_arg \<Rightarrow> bool" where
  "is_QInt (QInt i) = True"
| "is_QInt _ = False"

fun is_QStr :: "qubit_arg \<Rightarrow> bool" where
  "is_QStr (QStr s) = True"
| "is_QStr _ = False"

text \<open>\<^verbatim>\<open>np.kron\<close> on a qubit (through \<^verbatim>\<open>__array__\<close>) and a one-dimensional state.\<close>

definition kron_vec :: "complex list \<Rightarrow> complex list \<Rightarrow> complex list" where
  "kron_vec a b = concat (map (\<lambda>x. map (\<lambda>y. x * y) b) a)"

text \<open>
  \<^verbatim>\<open>str\<close> on the integers that pass \<^verbatim>\<open>set(qubits).issubset({0, 1})\<close>; it is applied to
  no other integer.
\<close>

definition str_bit :: "int \<Rightarrow> string" where
  "str_bit i = (if i = 0 then ''0'' else ''1'')"

text \<open>\<^verbatim>\<open>int(s, 2)\<close> on a string of the characters 0 and 1.\<close>

definition int_base2 :: "string \<Rightarrow> nat" where
  "int_base2 s = foldl (\<lambda>acc c. 2 * acc + (if c = CHR ''1'' then 1 else 0)) 0 s"

definition to_str :: "qubit_arg \<Rightarrow> qubit_arg" where
  "to_str q = (case q of QInt i \<Rightarrow> QStr (str_bit i) | _ \<Rightarrow> q)"

definition str_of :: "qubit_arg \<Rightarrow> string" where
  "str_of q = (case q of QStr s \<Rightarrow> s | _ \<Rightarrow> [])"

definition QuantumRegister_init :: "qubit_arg list \<Rightarrow> error + QuantumRegister" where
  "QuantumRegister_init qubits =
     (if \<not> length qubits > 0 then Inl AssertionError
      else (let n = length qubits; p = 2 ^ n
        in if list_all is_QQubit qubits
           then (let st = foldl (\<lambda>st q. kron_vec (case q of QQubit qb \<Rightarrow> Qubit_array qb | _ \<Rightarrow> []) st)
                            [1] (rev qubits)
                 in if length st = p then Inr \<lparr>qr_n = n, qr_state = st\<rparr>
                    else Inl AssertionError)
           else if list_all is_QInt qubits
                   \<and> \<not> list_all (\<lambda>q. q = QInt 0 \<or> q = QInt 1) qubits
           then Inl AssertionError
           else (let qubits' = (if list_all is_QInt qubits then map to_str qubits else qubits)
                 in if \<not> list_all is_QStr qubits' then Inl AssertionError
                    else if \<not> list_all (\<lambda>q. q = QStr ''0'' \<or> q = QStr ''1'') qubits'
                    then Inl AssertionError
                    else (let st = (replicate p 0)[int_base2 (concat (map str_of qubits')) := 1]
                          in if length st = p then Inr \<lparr>qr_n = n, qr_state = st\<rparr>
                             else Inl AssertionError))))"

text \<open>The product \<^verbatim>\<open>gate_array @ self._state\<close> of a float matrix and the complex state.\<close>

definition matvec :: "real list list \<Rightarrow> complex list \<Rightarrow> complex list" where
  "matvec M v = map (\<lambda>row. sum_list (map (\<lambda>(a, x). complex_of_real a * x) (zip row v))) M"

text \<open>
  \<^verbatim>\<open>apply\<close>: the gate is an array of numbers, complex in general; \<^verbatim>\<open>np.asarray(gate, float)\<close>
  keeps the real part of every entry. The shape of a list of rows is \<open>(p, p)\<close> when there
  are \<open>p\<close> rows of length \<open>p\<close>.
\<close>

definition qr_apply :: "QuantumRegister \<Rightarrow> complex list list \<Rightarrow> error + QuantumRegister" where
  "qr_apply r gate =
     (let gate_array = map (map Re) gate
      in if \<not> (length gate_array = qr_p r \<and> list_all (\<lambda>row. length row = qr_p r) gate_array)
         then Inl AssertionError
         else Inr (r\<lparr>qr_state := matvec gate_array (qr_state r)\<rparr>))"

definition qr_h :: "QuantumRegister \<Rightarrow> error + QuantumRegister" where
  "qr_h r =
     (case hadamard (int (qr_p r)) of
        Inl e \<Rightarrow> Inl e
      | Inr H \<Rightarrow> qr_apply r (map (map complex_of_real) H))"

definition r_gate :: "nat \<Rightarrow> real list list" where
  "r_gate p = map (\<lambda>i. map (\<lambda>j. 2 / real p * 1 - (if i = j then 1 else 0)) [0..<p]) [0..<p]"

definition qr_r :: "QuantumRegister \<Rightarrow> error + QuantumRegister" where
  "qr_r r = qr_apply r (map (map complex_of_real) (r_gate (qr_p r)))"

definition qr_o_f :: "QuantumRegister \<Rightarrow> int list \<Rightarrow> error + QuantumRegister" where
  "qr_o_f r f =
     (case phase_oracle f of
        Inl e \<Rightarrow> Inl e
      | Inr oracle \<Rightarrow> qr_apply r (map (map complex_of_real) oracle))"

section \<open>algorithms.py\<close>

text \<open>
  What \<^verbatim>\<open>print\<close> writes is kept as a list of events, each holding the values that the
  printed line shows. A driver returns the events written so far together with its result
  or its error.
\<close>

datatype trace =
    TraceFunction "int list"
  | TraceIterations nat
  | TraceQubits "Qubit list"
  | TraceRegister string "real list"
  | TraceGrover nat "real list"
  | TraceFoundType string
  | TraceFoundIndex "int list"
  | TraceFoundKey "int list"

text \<open>\<^verbatim>\<open>np.allclose(a, b)\<close> on two scalars, with numpy's default tolerances.\<close>

definition allclose :: "real \<Rightarrow> real \<Rightarrow> bool" where
  "allclose a b = (\<bar>a - b\<bar> \<le> 1 / 10 ^ 8 + 1 / 10 ^ 5 * \<bar>b\<bar>)"

text \<open>\<^verbatim>\<open>argmax\<close>: the index of the first occurrence of the largest value.\<close>

fun argmax_from :: "real list \<Rightarrow> nat \<Rightarrow> nat \<Rightarrow> real \<Rightarrow> nat" where
  "argmax_from [] i best_i best = best_i"
| "argmax_from (x # xs) i best_i best =
     (if x > best then argmax_from xs (Suc i) i x else argmax_from xs (Suc i) best_i best)"

definition argmax :: "real list \<Rightarrow> error + nat" where
  "argmax xs = (case xs of [] \<Rightarrow> Inl ValueError | x # xs' \<Rightarrow> Inr (argmax_from xs' 1 0 x))"

text \<open>\<^verbatim>\<open>format(m, "b")\<close>, as the list of its digits.\<close>

fun bin_digits :: "nat \<Rightarrow> int list" where
  "bin_digits m = (if m < 2 then [int m] else bin_digits (m div 2) @ [int (m mod 2)])"

declare bin_digits.simps [simp del]

text \<open>\<^verbatim>\<open>list(map(int, format(m, f"0{n}b")))\<close>: the digits, filled with zeros to the width \<open>n\<close>.\<close>

definition format_0nb :: "nat \<Rightarrow> nat \<Rightarrow> int list" where
  "format_0nb m n = replicate (n - length (bin_digits m)) 0 @ bin_digits m"

definition deutsch_jozsa_algorithm :: "int list \<Rightarrow> int \<Rightarrow> trace list \<times> (error + string)" where
  "deutsch_jozsa_algorithm f verbose =
     (let tr0 = (if verbose > 0 then [TraceFunction f] else []);
          p = int (length f)
      in case log2 p of Inl e \<Rightarrow> (tr0, Inl e) | Inr n \<Rightarrow>
        (case phase_oracle f of Inl e \<Rightarrow> (tr0, Inl e) | Inr o_f \<Rightarrow>
        (let qubits = replicate n zero;
             tr1 = tr0 @ (if verbose > 1 then [TraceQubits qubits] else [])
         in case QuantumRegister_init (map QQubit qubits) of Inl e \<Rightarrow> (tr1, Inl e) | Inr q0 \<Rightarrow>
           (let tr2 = tr1 @ (if verbose > 1
                             then [TraceRegister ''Initial quantum register'' (qr_real q0)] else [])
            in case qr_h q0 of Inl e \<Rightarrow> (tr2, Inl e) | Inr q1 \<Rightarrow>
              (let tr3 = tr2 @ (if verbose > 1
                                then [TraceRegister ''Quantum register after Hadamard gate''
                                        (qr_real q1)] else [])
               in case qr_apply q1 (map (map complex_of_real) o_f) of
                    Inl e \<Rightarrow> (tr3, Inl e) | Inr q2 \<Rightarrow>
                 (let tr4 = tr3 @ (if verbose > 1
                                   then [TraceRegister ''Quantum register after phase oracle gate''
                                           (qr_real q2)] else [])
                  in case qr_h q2 of Inl e \<Rightarrow> (tr4, Inl e) | Inr q3 \<Rightarrow>
                    (let tr5 = tr4 @ (if verbose > 1
                                      then [TraceRegister
                                              ''Quantum register after the second Hadamard gate''
                                              (qr_real q3)] else []);
                         flag = qr_real q3 ! 0;
                         found_type = (if allclose flag 1 then ''constant 0''
                                       else if allclose flag (- 1) then ''constant 1''
                                       else if allclose flag 0 then ''balanced''
                                       else ''other'');
                         tr6 = tr5 @ (if verbose > 0 then [TraceFoundType found_type] else [])
                     in (tr6, Inr found_type))))))))"

text \<open>The body of the loop \<^verbatim>\<open>for i in range(k)\<close> of Grover's algorithm.\<close>

fun grover_loop ::
  "real list list \<Rightarrow> int \<Rightarrow> nat list \<Rightarrow> trace list \<Rightarrow> QuantumRegister
     \<Rightarrow> trace list \<times> (error + QuantumRegister)" where
  "grover_loop o_f verbose [] tr q = (tr, Inr q)"
| "grover_loop o_f verbose (i # rest) tr q =
     (case qr_apply q (map (map complex_of_real) o_f) of
        Inl e \<Rightarrow> (tr, Inl e)
      | Inr q1 \<Rightarrow>
          (case qr_r q1 of
             Inl e \<Rightarrow> (tr, Inl e)
           | Inr q2 \<Rightarrow>
               grover_loop o_f verbose rest
                 (tr @ (if verbose > 1 then [TraceGrover (i + 1) (qr_real q2)] else [])) q2))"

definition grover_algorithm :: "int list \<Rightarrow> int \<Rightarrow> trace list \<times> (error + int list)" where
  "grover_algorithm f verbose =
     (let tr0 = (if verbose > 0 then [TraceFunction f] else []);
          p = int (length f)
      in case log2 p of Inl e \<Rightarrow> (tr0, Inl e) | Inr n \<Rightarrow>
        (case phase_oracle f of Inl e \<Rightarrow> (tr0, Inl e) | Inr o_f \<Rightarrow>
        (let k = nat \<lfloor>pi * sqrt (2 ^ n) / 4\<rfloor>;
             tr1 = tr0 @ (if verbose > 1 then [TraceIterations k] else []);
             qubits = replicate n zero;
             tr2 = tr1 @ (if verbose > 1 then [TraceQubits qubits] else [])
         in case QuantumRegister_init (map QQubit qubits) of Inl e \<Rightarrow> (tr2, Inl e) | Inr q0 \<Rightarrow>
           (let tr3 = tr2 @ (if verbose > 1
                             then [TraceRegister ''Initial quantum register'' (qr_real q0)] else [])
            in case qr_h q0 of Inl e \<Rightarrow> (tr3, Inl e) | Inr q1 \<Rightarrow>
              (let tr4 = tr3 @ (if verbose > 1
                                then [TraceRegister ''Quantum register after Hadamard gate''
                                        (qr_real q1)] else [])
               in case grover_loop o_f verbose [0..<k] tr4 q1 of
                    (tr5, Inl e) \<Rightarrow> (tr5, Inl e)
                  | (tr5, Inr q2) \<Rightarrow>
                      (case argmax (map (\<lambda>x. x * x) (qr_real q2)) of
                         Inl e \<Rightarrow> (tr5, Inl e)
                       | Inr m \<Rightarrow>
                           (let found_index = format_0nb m n;
                                tr6 = tr5 @ (if verbose > 0 then [TraceFoundIndex found_index]
                                             else [])
                            in (tr6, Inr found_index))))))))"

definition bernstein_vazirani_algorithm ::
  "int list \<Rightarrow> int \<Rightarrow> trace list \<times> (error + int list)" where
  "bernstein_vazirani_algorithm f verbose =
     (let tr0 = (if verbose > 0 then [TraceFunction f] else []);
          p = int (length f)
      in case log2 p of Inl e \<Rightarrow> (tr0, Inl e) | Inr n \<Rightarrow>
        (case phase_oracle f of Inl e \<Rightarrow> (tr0, Inl e) | Inr o_f \<Rightarrow>
        (let qubits = replicate n zero;
             tr1 = tr0 @ (if verbose > 1 then [TraceQubits qubits] else [])
         in case QuantumRegister_init (map QQubit qubits) of Inl e \<Rightarrow> (tr1, Inl e) | Inr q0 \<Rightarrow>
           (let tr2 = tr1 @ (if verbose > 1
                             then [TraceRegister ''Initial quantum register'' (qr_real q0)] else [])
            in case qr_h q0 of Inl e \<Rightarrow> (tr2, Inl e) | Inr q1 \<Rightarrow>
              (let tr3 = tr2 @ (if verbose > 1
                                then [TraceRegister ''Quantum register after Hadamard gate''
                                        (qr_real q1)] else [])
               in case qr_apply q1 (map (map complex_of_real) o_f) of
                    Inl e \<Rightarrow> (tr3, Inl e) | Inr q2 \<Rightarrow>
                 (let tr4 = tr3 @ (if verbose > 1
                                   then [TraceRegister ''Quantum register after phase oracle gate''
                                           (qr_real q2)] else [])
                  in case qr_h q2 of Inl e \<Rightarrow> (tr4, Inl e) | Inr q3 \<Rightarrow>
                    (let tr5 = tr4 @ (if verbose > 1
                                      then [TraceRegister
                                              ''Quantum register after the second Hadamard gate''
                                              (qr_real q3)] else [])
                     in case argmax (qr_real q3) of
                          Inl e \<Rightarrow> (tr5, Inl e)
                        | Inr m \<Rightarrow>
                            (let found_key = format_0nb m n;
                                 tr6 = tr5 @ (if verbose > 0 then [TraceFoundKey found_key]
                                              else [])
                             in (tr6, Inr found_key)))))))))"

section \<open>scripts/bernstein_vazirani_algorithm.py\<close>

text \<open>\<^verbatim>\<open>bin(m).count("1")\<close>\<close>

fun popcount :: "nat \<Rightarrow> nat" where
  "popcount m = (if m = 0 then 0 else m mod 2 + popcount (m div 2))"

declare popcount.simps [simp del]

text \<open>\<^verbatim>\<open>int("".join(map(str, key)), 2)\<close> on a key of zeros and ones.\<close>

definition key_value :: "int list \<Rightarrow> nat" where
  "key_value key = int_base2 (concat (map str_bit key))"

definition encode :: "int list \<Rightarrow> int list" where
  "encode key =
     (let n = length key; v = key_value key
      in map (\<lambda>x. int (popcount (and v x) mod 2)) [0..<2 ^ n])"

section \<open>Auxiliary definitions for the proofs\<close>

text \<open>The matrix that \<^const>\<open>hadamard\<close> returns for the size 2, and the one for the size \<open>2 ^ n\<close>.\<close>

definition H2 :: "real list list" where
  "H2 = [[SQRT1_2, SQRT1_2], [SQRT1_2, - SQRT1_2]]"

fun had :: "nat \<Rightarrow> real list list" where
  "had 0 = [[1]]"
| "had (Suc n) = kron H2 (had n)"

text \<open>
  The standard product of a complex matrix and a complex vector, and the test that a list of
  rows is an \<open>m \<times> k\<close> array; both are used to state what \<^const>\<open>qr_apply\<close> computes.
\<close>

definition cmatvec :: "complex list list \<Rightarrow> complex list \<Rightarrow> complex list" where
  "cmatvec G v = map (\<lambda>row. sum_list (map (\<lambda>(a, x). a * x) (zip row v))) G"

definition shape_is :: "'a list list \<Rightarrow> nat \<Rightarrow> nat \<Rightarrow> bool" where
  "shape_is G m k = (length G = m \<and> list_all (\<lambda>row. length row = k) G)"

text \<open>
  The drivers without their trace: the classification of the flag, the register after the
  gates Hadamard, oracle, Hadamard (the sequence of both the Deutsch-Jozsa and the
  Bernstein-Vazirani driver), the loop of Grover's driver, and the results of the drivers.
\<close>

definition classify :: "real \<Rightarrow> string" where
  "classify flag =
     (if allclose flag 1 then ''constant 0''
      else if allclose flag (- 1) then ''constant 1''
      else if allclose flag 0 then ''balanced''
      else ''other'')"

definition hoh_register :: "int list \<Rightarrow> error + QuantumRegister" where
  "hoh_register f =
     (case log2 (int (length f)) of Inl e \<Rightarrow> Inl e | Inr n \<Rightarrow>
     (case phase_oracle f of Inl e \<Rightarrow> Inl e | Inr o_f \<Rightarrow>
     (case QuantumRegister_init (map QQubit (replicate n zero)) of Inl e \<Rightarrow> Inl e | Inr q0 \<Rightarrow>
     (case qr_h q0 of Inl e \<Rightarrow> Inl e | Inr q1 \<Rightarrow>
     (case qr_apply q1 (map (map complex_of_real) o_f) of Inl e \<Rightarrow> Inl e | Inr q2 \<Rightarrow>
        qr_h q2)))))"

fun grover_steps :: "real list list \<Rightarrow> nat \<Rightarrow> QuantumRegister \<Rightarrow> error + QuantumRegister" where
  "grover_steps o_f 0 q = Inr q"
| "grover_steps o_f (Suc k) q =
     (case qr_apply q (map (map complex_of_real) o_f) of
        Inl e \<Rightarrow> Inl e
      | Inr q1 \<Rightarrow> (case qr_r q1 of Inl e \<Rightarrow> Inl e | Inr q2 \<Rightarrow> grover_steps o_f k q2))"

definition grover_register :: "int list \<Rightarrow> error + QuantumRegister" where
  "grover_register f =
     (case log2 (int (length f)) of Inl e \<Rightarrow> Inl e | Inr n \<Rightarrow>
     (case phase_oracle f of Inl e \<Rightarrow> Inl e | Inr o_f \<Rightarrow>
     (case QuantumRegister_init (map QQubit (replicate n zero)) of Inl e \<Rightarrow> Inl e | Inr q0 \<Rightarrow>
     (case qr_h q0 of Inl e \<Rightarrow> Inl e | Inr q1 \<Rightarrow>
        grover_steps o_f (nat \<lfloor>pi * sqrt (2 ^ n) / 4\<rfloor>) q1))))"

definition dj_result :: "int list \<Rightarrow> error + string" where
  "dj_result f =
     (case hoh_register f of Inl e \<Rightarrow> Inl e | Inr q \<Rightarrow> Inr (classify (qr_real q ! 0)))"

definition bv_result :: "int list \<Rightarrow> error + int list" where
  "bv_result f =
     (case hoh_register f of Inl e \<Rightarrow> Inl e | Inr q \<Rightarrow>
     (case argmax (qr_real q) of Inl e \<Rightarrow> Inl e | Inr m \<Rightarrow> Inr (format_0nb m (qr_n q))))"

definition grover_result :: "int list \<Rightarrow> error + int list" where
  "grover_result f =
     (case grover_register f of Inl e \<Rightarrow> Inl e | Inr q \<Rightarrow>
     (case argmax (map (\<lambda>x. x * x) (qr_real q)) of
        Inl e \<Rightarrow> Inl e | Inr m \<Rightarrow> Inr (format_0nb m (qr_n q))))"

text \<open>The state that the constructor builds from \<open>n\<close> qubits \<^const>\<open>zero\<close>.\<close>

fun e0 :: "nat \<Rightarrow> complex list" where
  "e0 0 = [1]"
| "e0 (Suc n) = e0 n @ replicate (2 ^ n) 0"

text \<open>
  The registers of a lifecycle: built by the constructor, then changed by \<^const>\<open>qr_apply\<close>,
  \<^const>\<open>qr_h\<close>, \<^const>\<open>qr_r\<close> and \<^const>\<open>qr_o_f\<close>.
\<close>

inductive reachable :: "QuantumRegister \<Rightarrow> bool" where
  reach_init: "QuantumRegister_init qs = Inr r \<Longrightarrow> reachable r"
| reach_apply: "reachable r \<Longrightarrow> qr_apply r g = Inr r' \<Longrightarrow> reachable r'"
| reach_h: "reachable r \<Longrightarrow> qr_h r = Inr r' \<Longrightarrow> reachable r'"
| reach_r: "reachable r \<Longrightarrow> qr_r r = Inr r' \<Longrightarrow> reachable r'"
| reach_o_f: "reachable r \<Longrightarrow> qr_o_f r f = Inr r' \<Longrightarrow> reachable r'"

text \<open>
  The registers that the drivers hold: built from qubits \<^const>\<open>zero\<close>, then changed by
  the Hadamard gate, by a phase oracle given to \<^const>\<open>qr_apply\<close>, and by the diffusion gate.
\<close>

inductive driver_state :: "QuantumRegister \<Rightarrow> bool" where
  ds_init: "QuantumRegister_init (map QQubit (replicate n zero)) = Inr q \<Longrightarrow> driver_state q"
| ds_h: "driver_state q \<Longrightarrow> qr_h q = Inr q' \<Longrightarrow> driver_state q'"
| ds_oracle: "driver_state q \<Longrightarrow> phase_oracle f = Inr o_f
     \<Longrightarrow> qr_apply q (map (map complex_of_real) o_f) = Inr q' \<Longrightarrow> driver_state q'"
| ds_r: "driver_state q \<Longrightarrow> qr_r q = Inr q' \<Longrightarrow> driver_state q'"

text \<open>A sequence of bits read as a binary integer, most significant bit first.\<close>

definition bits_value :: "nat list \<Rightarrow> nat" where
  "bits_value bs = foldl (\<lambda>acc b. 2 * acc + b) 0 bs"

text \<open>
  The product of a row and the state, the action of the Hadamard matrix of size \<open>2 ^ n\<close>
  on a state given by recursion on \<open>n\<close> (the state is split in its two halves), the action
  of a phase oracle, and the state after the gates Hadamard, oracle, Hadamard.
\<close>

definition dot :: "real list \<Rightarrow> complex list \<Rightarrow> complex" where
  "dot row v = sum_list (map (\<lambda>(a, x). complex_of_real a * x) (zip row v))"

fun fwht :: "nat \<Rightarrow> complex list \<Rightarrow> complex list" where
  "fwht 0 v = v"
| "fwht (Suc n) v =
     (let a = fwht n (take (2 ^ n) v); b = fwht n (drop (2 ^ n) v)
      in map2 (\<lambda>x y. complex_of_real SQRT1_2 * (x + y)) a b
         @ map2 (\<lambda>x y. complex_of_real SQRT1_2 * (x - y)) a b)"

definition oracle_vec :: "int list \<Rightarrow> complex list \<Rightarrow> complex list" where
  "oracle_vec f v = map2 (\<lambda>x z. complex_of_real ((- 1) ^ nat x) * z) f v"

definition hoh_state :: "nat \<Rightarrow> int list \<Rightarrow> complex list" where
  "hoh_state n f = fwht n (oracle_vec f (fwht n (e0 n)))"

text \<open>The sum of the signs \<open>(-1) ^ f[i]\<close> of a truth table.\<close>

definition sign_sum :: "int list \<Rightarrow> real" where
  "sign_sum f = sum_list (map (\<lambda>x. (- 1) ^ nat x) f)"

text \<open>
  A sequence of integer bits read as a binary number, least significant bit first, and the
  state that is 1 at one index and 0 elsewhere.
\<close>

fun lsb_value :: "int list \<Rightarrow> nat" where
  "lsb_value [] = 0"
| "lsb_value (d # ds) = nat d + 2 * lsb_value ds"

definition onehot :: "nat \<Rightarrow> nat \<Rightarrow> complex list" where
  "onehot p i = (replicate p 0)[i := 1]"

text \<open>The product of two real matrices and the identity matrix, to state that a gate is self-inverse.\<close>

definition ncols :: "real list list \<Rightarrow> nat" where
  "ncols B = (case B of [] \<Rightarrow> 0 | row # _ \<Rightarrow> length row)"

definition mat_mult :: "real list list \<Rightarrow> real list list \<Rightarrow> real list list" where
  "mat_mult A B =
     map (\<lambda>row. map (\<lambda>j. sum_list (map (\<lambda>k. row ! k * B ! k ! j) [0..<length B])) [0..<ncols B]) A"

definition identity :: "nat \<Rightarrow> real list list" where
  "identity p = map (\<lambda>i. map (\<lambda>j. if i = j then 1 else 0) [0..<p]) [0..<p]"

text \<open>
  The states of Grover's loop: a state with the amplitude \<open>a\<close> at the marked index and
  \<open>b\<close> at every other index, and the change of the two amplitudes by one oracle and one
  diffusion gate on \<open>p\<close> basis states.
\<close>

definition spike :: "nat \<Rightarrow> nat \<Rightarrow> complex \<Rightarrow> complex \<Rightarrow> complex list" where
  "spike p m a b = (replicate p b)[m := a]"

definition grover_amp :: "real \<Rightarrow> real \<times> real \<Rightarrow> real \<times> real" where
  "grover_amp p ab = (let s = 2 / p * (- fst ab + (p - 1) * snd ab) in (s + fst ab, s - snd ab))"

section \<open>Logarithm and Hadamard matrices\<close>

lemma floor_log2_pow: "floor_log2 (2 ^ n) = n"
proof (induction n)
  case 0
  show ?case by (simp add: floor_log2.simps)
next
  case (Suc n)
  have "floor_log2 (2 ^ Suc n) = Suc (floor_log2 (2 ^ Suc n div 2))"
    by (subst floor_log2.simps) (simp add: not_less)
  then show ?case using Suc by simp
qed

lemma log2_pow: "log2 (2 ^ n) = Inr n"
  by (simp add: log2_def Let_def floor_log2_pow nat_power_eq)

lemma log2_Inr_iff: "log2 p = Inr n \<longleftrightarrow> p = 2 ^ n"
proof
  assume "log2 p = Inr n"
  then show "p = 2 ^ n" by (auto simp: log2_def Let_def split: if_splits)
next
  assume "p = 2 ^ n"
  then show "log2 p = Inr n" by (simp add: log2_pow)
qed

lemma hadamard_1: "hadamard 1 = Inr [[1]]"
  using log2_pow[of 0] by (subst hadamard.simps) simp

lemma hadamard_2: "hadamard 2 = Inr H2"
  using log2_pow[of 1] by (subst hadamard.simps) (simp add: H2_def)

lemma kron_H2_1: "kron H2 [[1]] = H2"
  by (simp add: kron_def H2_def)

lemma hadamard_pow: "hadamard (2 ^ n) = Inr (had n)"
proof (induction n)
  case 0
  show ?case using hadamard_1 by simp
next
  case (Suc n)
  show ?case
  proof (cases n)
    case 0
    then show ?thesis using hadamard_2 by (simp add: kron_H2_1)
  next
    case (Suc m)
    have "hadamard (2 ^ Suc n) =
      (case hadamard 2 of Inl e \<Rightarrow> Inl e
       | Inr h2 \<Rightarrow> (case hadamard (2 ^ Suc n div 2) of Inl e \<Rightarrow> Inl e | Inr hp \<Rightarrow> Inr (kron h2 hp)))"
      using log2_pow[of "Suc n"] Suc by (subst hadamard.simps) simp
    also have "\<dots> = Inr (kron H2 (had n))"
      using Suc.IH by (simp add: hadamard_2)
    finally show ?thesis by simp
  qed
qed

section \<open>The phase oracle\<close>

text \<open>
  C5, as stated: \<^const>\<open>phase_oracle\<close> fails when the length of the truth table is not a power
  of two. It does not: the table \<open>[0, 1, 0]\<close> has length 3, which \<^const>\<open>log2\<close> rejects, and
  \<^const>\<open>phase_oracle\<close> returns the 3 by 3 diagonal matrix for it.
\<close>

theorem phase_oracle_length_counterexample:
  "log2 (int (length [0, 1, 0 :: int])) = Inl AssertionError
   \<and> phase_oracle [0, 1, 0] = Inr [[1, 0, 0], [0, - 1, 0], [0, 0, 1]]"
  by (simp add: log2_def phase_oracle_def Let_def floor_log2.simps upt_rec)

text \<open>
  C5, amended: for every truth table \<open>f\<close>, \<^const>\<open>phase_oracle\<close> fails exactly when some value
  of \<open>f\<close> is neither 0 nor 1, whatever the length of \<open>f\<close>; otherwise it returns the
  \<open>p \<times> p\<close> matrix, \<open>p\<close> the length of \<open>f\<close>, whose \<open>i\<close>-th diagonal entry is \<open>(-1) ^ f[i]\<close>
  and whose other entries are 0.
\<close>

theorem phase_oracle_diagonal:
  "(list_all (\<lambda>x. x = 0 \<or> x = 1) f \<longrightarrow>
      (\<exists>M. phase_oracle f = Inr M \<and> shape_is M (length f) (length f)
         \<and> (\<forall>i < length f. \<forall>j < length f.
               M ! i ! j = (if i = j then (if f ! i = 0 then 1 else - 1) else 0))))
   \<and> (\<not> list_all (\<lambda>x. x = 0 \<or> x = 1) f \<longrightarrow> phase_oracle f = Inl AssertionError)"
proof (intro conjI impI)
  assume ok: "list_all (\<lambda>x. x = 0 \<or> x = 1) f"
  let ?M = "map (\<lambda>i. map (\<lambda>j. if i = j then map (\<lambda>x. (- 1) ^ nat x) f ! i else (0::real))
                 [0..<length f]) [0..<length f]"
  have eq: "phase_oracle f = Inr ?M"
    using ok by (simp add: phase_oracle_def Let_def)
  have sh: "shape_is ?M (length f) (length f)"
    by (simp add: shape_is_def list_all_iff)
  have ent: "?M ! i ! j = (if i = j then (if f ! i = 0 then 1 else - 1) else 0)"
    if "i < length f" "j < length f" for i j
  proof -
    have "f ! i = 0 \<or> f ! i = 1"
      using ok that by (auto simp: list_all_length)
    then show ?thesis using that by auto
  qed
  show "\<exists>M. phase_oracle f = Inr M \<and> shape_is M (length f) (length f)
         \<and> (\<forall>i < length f. \<forall>j < length f.
               M ! i ! j = (if i = j then (if f ! i = 0 then 1 else - 1) else 0))"
    using eq sh ent by blast
next
  assume "\<not> list_all (\<lambda>x. x = 0 \<or> x = 1) f"
  then show "phase_oracle f = Inl AssertionError"
    by (simp add: phase_oracle_def)
qed

theorem phase_oracle_diagonal_witness:
  "(\<exists>M. phase_oracle [0, 1, 0] = Inr M \<and> shape_is M (length [0, 1, 0 :: int]) (length [0, 1, 0 :: int])
         \<and> (\<forall>i < length [0, 1, 0 :: int]. \<forall>j < length [0, 1, 0 :: int].
               M ! i ! j = (if i = j then (if [0, 1, 0 :: int] ! i = 0 then 1 else - 1) else 0)))
   \<and> phase_oracle [0, 2] = Inl AssertionError"
proof -
  have h1: "list_all (\<lambda>x. x = 0 \<or> x = 1) [0, 1, 0 :: int]" by simp
  have h2: "\<not> list_all (\<lambda>x. x = 0 \<or> x = 1) [0, 2 :: int]" by simp
  show ?thesis
    using phase_oracle_diagonal[of "[0, 1, 0]"] phase_oracle_diagonal[of "[0, 2]"] h1 h2 by blast
qed


section \<open>Applying a gate\<close>

lemma matvec_cmatvec: "matvec (map (map Re) G) v = cmatvec (map (map (\<lambda>z. complex_of_real (Re z))) G) v"
  by (simp add: matvec_def cmatvec_def zip_map1 comp_def case_prod_unfold)

text \<open>
  C4, as stated: \<^const>\<open>qr_apply\<close> replaces the state with the product of the gate and the
  state, keeping the complex entries of the gate. It does not: for the unitary gate
  \<open>\<i> * I\<close> and the state \<open>[1, 0]\<close> the product is \<open>[\<i>, 0]\<close>, and \<^const>\<open>qr_apply\<close>
  leaves the state \<open>[0, 0]\<close>.
\<close>

theorem apply_complex_gate_counterexample:
  "qr_apply \<lparr>qr_n = 1, qr_state = [1, 0]\<rparr> [[\<i>, 0], [0, \<i>]]
     = Inr \<lparr>qr_n = 1, qr_state = [0, 0]\<rparr>
   \<and> cmatvec [[\<i>, 0], [0, \<i>]] [1, 0] = [\<i>, 0]"
  by (simp add: qr_apply_def qr_p_def matvec_def cmatvec_def Let_def)

text \<open>
  C4, amended: \<^const>\<open>qr_apply\<close> fails exactly when the gate is not a \<open>p \<times> p\<close> array;
  otherwise it returns the register with the state replaced by the product of the real
  part of the gate and the state. For a gate whose entries are real this is the product of
  the gate and the state.
\<close>

theorem apply_real_part_of_gate:
  "qr_apply r gate =
     (if shape_is gate (qr_p r) (qr_p r)
      then Inr (r\<lparr>qr_state := cmatvec (map (map (\<lambda>z. complex_of_real (Re z))) gate) (qr_state r)\<rparr>)
      else Inl AssertionError)
   \<and> (list_all (list_all (\<lambda>z. Im z = 0)) gate \<longrightarrow>
        cmatvec (map (map (\<lambda>z. complex_of_real (Re z))) gate) (qr_state r) = cmatvec gate (qr_state r))"
proof
  show "qr_apply r gate =
     (if shape_is gate (qr_p r) (qr_p r)
      then Inr (r\<lparr>qr_state := cmatvec (map (map (\<lambda>z. complex_of_real (Re z))) gate) (qr_state r)\<rparr>)
      else Inl AssertionError)"
    by (auto simp: qr_apply_def Let_def shape_is_def list_all_iff matvec_cmatvec)
next
  show "list_all (list_all (\<lambda>z. Im z = 0)) gate \<longrightarrow>
        cmatvec (map (map (\<lambda>z. complex_of_real (Re z))) gate) (qr_state r) = cmatvec gate (qr_state r)"
  proof
    assume re: "list_all (list_all (\<lambda>z. Im z = 0)) gate"
    have "map (map (\<lambda>z. complex_of_real (Re z))) gate = gate"
    proof -
      have "map (\<lambda>z. complex_of_real (Re z)) row = row" if "row \<in> set gate" for row
      proof -
        have "\<forall>z \<in> set row. Im z = 0" using re that by (auto simp: list_all_iff)
        then have "\<forall>z \<in> set row. complex_of_real (Re z) = z"
          by (auto simp: complex_eq_iff)
        then show ?thesis by (simp add: map_idI)
      qed
      then show ?thesis by (simp add: map_idI)
    qed
    then show "cmatvec (map (map (\<lambda>z. complex_of_real (Re z))) gate) (qr_state r) = cmatvec gate (qr_state r)"
      by simp
  qed
qed


theorem apply_real_part_of_gate_witness:
  "qr_apply \<lparr>qr_n = 1, qr_state = [1, 0]\<rparr> [[0, 1], [1, 0]] = Inr \<lparr>qr_n = 1, qr_state = [0, 1]\<rparr>
   \<and> qr_apply \<lparr>qr_n = 1, qr_state = [1, 0]\<rparr> [[0, 1, 0], [1, 0, 0]] = Inl AssertionError"
  using apply_real_part_of_gate[of "\<lparr>qr_n = 1, qr_state = [1, 0]\<rparr>" "[[0, 1], [1, 0]]"]
        apply_real_part_of_gate[of "\<lparr>qr_n = 1, qr_state = [1, 0]\<rparr>" "[[0, 1, 0], [1, 0, 0]]"]
  by (simp add: shape_is_def qr_p_def cmatvec_def)


section \<open>The drivers without their trace\<close>

lemma qr_apply_n: "qr_apply r g = Inr r' \<Longrightarrow> qr_n r' = qr_n r"
  by (auto simp: qr_apply_def Let_def split: if_splits)

lemma qr_h_n: "qr_h r = Inr r' \<Longrightarrow> qr_n r' = qr_n r"
  by (auto simp: qr_h_def qr_apply_n split: sum.splits)

lemma qr_r_n: "qr_r r = Inr r' \<Longrightarrow> qr_n r' = qr_n r"
  by (auto simp: qr_r_def qr_apply_n)

lemma init_n: "QuantumRegister_init qs = Inr r \<Longrightarrow> qr_n r = length qs"
  by (auto simp: QuantumRegister_init_def Let_def split: if_splits)

lemma grover_steps_n: "grover_steps o_f k q = Inr q' \<Longrightarrow> qr_n q' = qr_n q"
proof (induction k arbitrary: q)
  case 0
  then show ?case by simp
next
  case (Suc k)
  then show ?case
    by (auto split: sum.splits dest!: qr_apply_n qr_r_n)
qed

lemma hoh_register_n:
  "hoh_register f = Inr q \<Longrightarrow> log2 (int (length f)) = Inr (qr_n q)"
  by (auto simp: hoh_register_def split: sum.splits dest!: qr_apply_n qr_h_n init_n)

lemma grover_register_n:
  "grover_register f = Inr q \<Longrightarrow> log2 (int (length f)) = Inr (qr_n q)"
  by (auto simp: grover_register_def split: sum.splits dest!: grover_steps_n qr_h_n init_n)

lemma snd_grover_loop:
  "snd (grover_loop o_f verbose is tr q) = grover_steps o_f (length is) q"
  by (induction "is" arbitrary: tr q) (auto split: sum.splits)

lemma snd_deutsch_jozsa: "snd (deutsch_jozsa_algorithm f verbose) = dj_result f"
  unfolding deutsch_jozsa_algorithm_def dj_result_def hoh_register_def classify_def Let_def
  by (simp split: sum.splits)

lemma snd_bernstein_vazirani_raw:
  "snd (bernstein_vazirani_algorithm f verbose) =
     (case hoh_register f of Inl e \<Rightarrow> Inl e | Inr q \<Rightarrow>
     (case argmax (qr_real q) of
        Inl e \<Rightarrow> Inl e
      | Inr m \<Rightarrow> (case log2 (int (length f)) of Inl e \<Rightarrow> Inl e | Inr n \<Rightarrow> Inr (format_0nb m n))))"
  unfolding bernstein_vazirani_algorithm_def hoh_register_def Let_def
  by (simp add: sum.case_distrib[of snd] split: sum.splits)

lemma snd_bernstein_vazirani: "snd (bernstein_vazirani_algorithm f verbose) = bv_result f"
  unfolding snd_bernstein_vazirani_raw bv_result_def
  by (auto split: sum.splits dest!: hoh_register_n)

lemma snd_case_pair:
  "snd (case pr of (t, Inl e) \<Rightarrow> (t, Inl e) | (t, Inr q) \<Rightarrow> F t q)
     = (case snd pr of Inl e \<Rightarrow> Inl e | Inr q \<Rightarrow> snd (F (fst pr) q))"
  by (cases pr; cases "snd pr") auto

lemma snd_grover_raw:
  "snd (grover_algorithm f verbose) =
     (case grover_register f of Inl e \<Rightarrow> Inl e | Inr q \<Rightarrow>
     (case argmax (map (\<lambda>x. x * x) (qr_real q)) of
        Inl e \<Rightarrow> Inl e
      | Inr m \<Rightarrow> (case log2 (int (length f)) of Inl e \<Rightarrow> Inl e | Inr n \<Rightarrow> Inr (format_0nb m n))))"
  unfolding grover_algorithm_def grover_register_def Let_def
  by (simp add: sum.case_distrib[of snd] snd_case_pair snd_grover_loop split: sum.splits)

lemma snd_grover: "snd (grover_algorithm f verbose) = grover_result f"
  unfolding snd_grover_raw grover_result_def
  by (auto split: sum.splits dest!: grover_register_n)

section \<open>Shapes\<close>

lemma length_concat_map_const:
  "length (concat (map (\<lambda>a. map (g a) B) A)) = length A * length B"
  by (induction A) auto

lemma length_kron: "length (kron A B) = length A * length B"
  unfolding kron_def by (rule length_concat_map_const)

lemma length_concat_uniform:
  "(\<And>xs. xs \<in> set xss \<Longrightarrow> length xs = k) \<Longrightarrow> length (concat xss) = length xss * k"
  by (induction xss) auto

lemma kron_row_length:
  assumes "\<And>row. row \<in> set A \<Longrightarrow> length row = ca"
      and "\<And>row. row \<in> set B \<Longrightarrow> length row = cb"
      and "row \<in> set (kron A B)"
  shows "length row = ca * cb"
proof -
  from assms(3) obtain rowA rowB where rA: "rowA \<in> set A" and rB: "rowB \<in> set B"
    and row: "row = concat (map (\<lambda>a. map (\<lambda>b. a * b) rowB) rowA)"
    by (auto simp: kron_def)
  have "length row = length rowA * length rowB"
    unfolding row by (rule length_concat_map_const)
  then show ?thesis using assms(1)[OF rA] assms(2)[OF rB] by simp
qed

lemma shape_is_kron:
  "shape_is A ra ca \<Longrightarrow> shape_is B rb cb \<Longrightarrow> shape_is (kron A B) (ra * rb) (ca * cb)"
  unfolding shape_is_def list_all_iff
  using kron_row_length[of A ca B cb] by (auto simp: length_kron)

lemma shape_is_H2: "shape_is H2 2 2"
  by (simp add: shape_is_def H2_def)

lemma shape_is_had: "shape_is (had n) (2 ^ n) (2 ^ n)"
proof (induction n)
  case 0
  show ?case by (simp add: shape_is_def)
next
  case (Suc n)
  show ?case using shape_is_kron[OF shape_is_H2 Suc] by simp
qed

lemma shape_is_r_gate: "shape_is (r_gate p) p p"
  by (simp add: shape_is_def r_gate_def list_all_iff)

lemma shape_is_map: "shape_is (map (map g) M) m k = shape_is M m k"
  by (simp add: shape_is_def list_all_iff)

lemma qr_apply_shape:
  "qr_apply r g =
     (if shape_is g (qr_p r) (qr_p r)
      then Inr (r\<lparr>qr_state := matvec (map (map Re) g) (qr_state r)\<rparr>) else Inl AssertionError)"
  by (auto simp: qr_apply_def Let_def shape_is_def list_all_iff)

lemma map_map_Re_of_real: "map (map Re) (map (map complex_of_real) M) = M"
  by (simp add: comp_def map_idI)

lemma qr_apply_real:
  "shape_is M (qr_p r) (qr_p r) \<Longrightarrow>
     qr_apply r (map (map complex_of_real) M) = Inr (r\<lparr>qr_state := matvec M (qr_state r)\<rparr>)"
  by (simp add: qr_apply_shape shape_is_map comp_def)

lemma qr_h_eq: "qr_h r = Inr (r\<lparr>qr_state := matvec (had (qr_n r)) (qr_state r)\<rparr>)"
proof -
  have "hadamard (int (qr_p r)) = Inr (had (qr_n r))"
    using hadamard_pow[of "qr_n r"] by (simp add: qr_p_def)
  then show ?thesis
    using shape_is_had[of "qr_n r"] by (simp add: qr_h_def qr_apply_real qr_p_def)
qed

lemma qr_r_eq: "qr_r r = Inr (r\<lparr>qr_state := matvec (r_gate (qr_p r)) (qr_state r)\<rparr>)"
  by (simp add: qr_r_def qr_apply_real shape_is_r_gate)

lemma length_matvec: "length (matvec M v) = length M"
  by (simp add: matvec_def)

lemma qr_apply_length:
  "qr_apply r g = Inr r' \<Longrightarrow> length (qr_state r') = qr_p r \<and> qr_n r' = qr_n r"
  by (auto simp: qr_apply_def Let_def length_matvec split: if_splits)

lemma init_length:
  "QuantumRegister_init qs = Inr r \<Longrightarrow> qr_n r = length qs \<and> length (qr_state r) = 2 ^ length qs"
  by (auto simp: QuantumRegister_init_def Let_def split: if_splits)

lemma reachable_length: "reachable r \<Longrightarrow> length (qr_state r) = 2 ^ qr_n r"
proof (induction rule: reachable.induct)
  case (reach_init qs r)
  then show ?case using init_length by simp
next
  case (reach_apply r g r')
  then show ?case using qr_apply_length[of r g r'] by (simp add: qr_p_def)
next
  case (reach_h r r')
  then show ?case using shape_is_had[of "qr_n r"] by (auto simp: qr_h_eq length_matvec shape_is_def)
next
  case (reach_r r r')
  then show ?case by (auto simp: qr_r_eq length_matvec r_gate_def qr_p_def)
next
  case (reach_o_f r f r')
  then show ?case
    using qr_apply_length by (auto simp: qr_o_f_def qr_p_def split: sum.splits)
qed

section \<open>Construction from qubits\<close>

lemma length_kron_vec: "length (kron_vec a b) = length a * length b"
  unfolding kron_vec_def by (rule length_concat_map_const)

lemma foldl_kron_length:
  "list_all is_QQubit qs \<Longrightarrow>
   length (foldl (\<lambda>st q. kron_vec (case q of QQubit qb \<Rightarrow> Qubit_array qb | _ \<Rightarrow> []) st) s qs)
     = 2 ^ length qs * length s"
proof (induction qs arbitrary: s)
  case Nil
  show ?case by simp
next
  case (Cons q qs)
  from Cons.prems obtain qb where q: "q = QQubit qb" by (cases q) auto
  from Cons.prems have "list_all is_QQubit qs" by simp
  from Cons.IH[OF this] show ?case
    by (simp add: q length_kron_vec Qubit_array_def)
qed

lemma init_qubits_ok:
  assumes "qs \<noteq> []" "list_all is_QQubit qs"
  shows "\<exists>r. QuantumRegister_init qs = Inr r"
proof -
  have "list_all is_QQubit (rev qs)" using assms(2) by (simp add: list_all_iff)
  from foldl_kron_length[OF this, of "[1]"] assms show ?thesis
    by (simp add: QuantumRegister_init_def Let_def)
qed

section \<open>The length of the state\<close>

lemma init_QInt0: "QuantumRegister_init [QInt 0] = Inr \<lparr>qr_n = 1, qr_state = [1, 0]\<rparr>"
  by (simp add: QuantumRegister_init_def Let_def to_str_def str_bit_def str_of_def int_base2_def numeral_2_eq_2)

text \<open>
  C7: the state of a register has length \<open>p = 2 ^ n\<close> when it is built and after every
  operation. Every register of a lifecycle (built by the constructor, then changed by
  \<^const>\<open>qr_apply\<close>, \<^const>\<open>qr_h\<close>, \<^const>\<open>qr_r\<close>, \<^const>\<open>qr_o_f\<close>) has a state of length \<open>p\<close>;
  the constructor, on a sequence of length \<open>n\<close>, gives a state of length \<open>2 ^ n\<close>; a
  successful \<^const>\<open>qr_apply\<close> gives a state of length \<open>p\<close> and leaves \<open>p\<close> as it is. These
  operations do return: the constructor on every non-empty sequence of qubits,
  \<^const>\<open>qr_apply\<close> on every \<open>p \<times> p\<close> gate, \<^const>\<open>qr_h\<close> and \<^const>\<open>qr_r\<close> always.
\<close>

theorem state_length_invariant:
  "(reachable r \<longrightarrow> length (qr_state r) = qr_p r)
   \<and> (QuantumRegister_init qs = Inr r0 \<longrightarrow>
        qr_n r0 = length qs \<and> length (qr_state r0) = 2 ^ length qs)
   \<and> (qr_apply r1 g = Inr r1' \<longrightarrow> length (qr_state r1') = qr_p r1 \<and> qr_p r1' = qr_p r1)
   \<and> (qs' \<noteq> [] \<and> list_all is_QQubit qs' \<longrightarrow> (\<exists>r'. QuantumRegister_init qs' = Inr r'))
   \<and> (shape_is g' (qr_p r2) (qr_p r2) \<longrightarrow> (\<exists>r'. qr_apply r2 g' = Inr r'))
   \<and> (\<exists>r'. qr_h r3 = Inr r') \<and> (\<exists>r'. qr_r r3 = Inr r')"
proof (intro conjI impI)
  assume "reachable r"
  then show "length (qr_state r) = qr_p r"
    by (simp add: reachable_length qr_p_def)
next
  assume "QuantumRegister_init qs = Inr r0"
  then show "qr_n r0 = length qs" "length (qr_state r0) = 2 ^ length qs"
    using init_length by auto
next
  assume "qr_apply r1 g = Inr r1'"
  then show "length (qr_state r1') = qr_p r1" "qr_p r1' = qr_p r1"
    using qr_apply_length[of r1 g r1'] by (auto simp: qr_p_def)
next
  assume "qs' \<noteq> [] \<and> list_all is_QQubit qs'"
  then show "\<exists>r'. QuantumRegister_init qs' = Inr r'"
    using init_qubits_ok by blast
next
  assume "shape_is g' (qr_p r2) (qr_p r2)"
  then show "\<exists>r'. qr_apply r2 g' = Inr r'"
    by (simp add: qr_apply_shape)
next
  show "\<exists>r'. qr_h r3 = Inr r'" by (simp add: qr_h_eq)
  show "\<exists>r'. qr_r r3 = Inr r'" by (simp add: qr_r_eq)
qed

theorem state_length_invariant_witness:
  "reachable \<lparr>qr_n = 1, qr_state = [1, 0]\<rparr>
   \<and> length (qr_state \<lparr>qr_n = 1, qr_state = [1, 0]\<rparr>) = qr_p \<lparr>qr_n = 1, qr_state = [1, 0]\<rparr>
   \<and> length (qr_state \<lparr>qr_n = 1, qr_state = [0, 1]\<rparr>) = qr_p \<lparr>qr_n = 1, qr_state = [1, 0]\<rparr>
   \<and> (\<exists>r'. QuantumRegister_init [QQubit zero, QQubit one] = Inr r')"
proof -
  let ?R = "\<lparr>qr_n = 1, qr_state = [1, 0]\<rparr>"
  let ?R' = "\<lparr>qr_n = 1, qr_state = [0, 1]\<rparr>"
  let ?g = "[[0, 1], [1, 0]] :: complex list list"
  have reach: "reachable ?R" using reach_init[OF init_QInt0] .
  have ap: "qr_apply ?R ?g = Inr ?R'"
    by (simp add: qr_apply_def qr_p_def matvec_def Let_def)
  have qs: "[QQubit zero, QQubit one] \<noteq> [] \<and> list_all is_QQubit [QQubit zero, QQubit one]"
    by simp
  from state_length_invariant[of ?R "[QInt 0]" ?R ?R ?g ?R' "[QQubit zero, QQubit one]" ?g ?R ?R]
    reach ap qs init_QInt0
  show ?thesis by blast
qed

section \<open>Verbosity\<close>

lemma fst_grover_loop_silent:
  "\<not> verbose > 1 \<Longrightarrow> fst (grover_loop o_f verbose is tr q) = tr"
  by (induction "is" arbitrary: tr q) (auto split: sum.splits)

lemma fst_case_pair:
  "fst (case pr of (t, Inl e) \<Rightarrow> (t, Inl e) | (t, Inr q) \<Rightarrow> F t q)
     = (case snd pr of Inl e \<Rightarrow> fst pr | Inr q \<Rightarrow> fst (F (fst pr) q))"
  by (cases pr; cases "snd pr") auto

lemma fst_deutsch_jozsa_silent: "fst (deutsch_jozsa_algorithm f 0) = []"
  unfolding deutsch_jozsa_algorithm_def Let_def
  by (simp add: sum.case_distrib[of fst] split: sum.splits)

lemma fst_bernstein_vazirani_silent: "fst (bernstein_vazirani_algorithm f 0) = []"
  unfolding bernstein_vazirani_algorithm_def Let_def
  by (simp add: sum.case_distrib[of fst] split: sum.splits)

lemma fst_grover_silent: "fst (grover_algorithm f 0) = []"
  unfolding grover_algorithm_def Let_def
  by (simp add: sum.case_distrib[of fst] fst_case_pair fst_grover_loop_silent split: sum.splits)

text \<open>
  C9: for each of the three drivers and every truth table, the result (or the error) is the
  same for every two verbosity levels; the verbosity only decides which events are written,
  and at verbosity 0 none is.
\<close>

theorem verbosity_noninterference:
  "snd (deutsch_jozsa_algorithm f v) = snd (deutsch_jozsa_algorithm f v')
   \<and> snd (grover_algorithm f v) = snd (grover_algorithm f v')
   \<and> snd (bernstein_vazirani_algorithm f v) = snd (bernstein_vazirani_algorithm f v')
   \<and> fst (deutsch_jozsa_algorithm f 0) = []
   \<and> fst (grover_algorithm f 0) = []
   \<and> fst (bernstein_vazirani_algorithm f 0) = []"
  by (simp add: snd_deutsch_jozsa snd_grover snd_bernstein_vazirani
      fst_deutsch_jozsa_silent fst_grover_silent fst_bernstein_vazirani_silent)

section \<open>The initial state of the drivers\<close>

lemma Qubit_array_zero: "Qubit_array zero = [1, 0]"
  by (simp add: Qubit_array_def zero_def Qubit_init_def Let_def)

lemma map_mult_one: "map ((*) (1::complex)) st = st"
  by (induction st) auto

lemma map_mult_zero: "map ((*) (0::complex)) st = replicate (length st) 0"
  by (induction st) auto

lemma kron_vec_zero: "kron_vec [1, 0] st = st @ replicate (length st) 0"
  by (simp add: kron_vec_def map_mult_one map_mult_zero)

lemma length_e0: "length (e0 n) = 2 ^ n"
  by (induction n) auto

lemma foldl_zero_qubits:
  "foldl (\<lambda>st q. kron_vec (case q of QQubit qb \<Rightarrow> Qubit_array qb | _ \<Rightarrow> []) st) [1]
     (replicate n (QQubit zero)) = e0 n"
proof (induction n)
  case 0
  show ?case by simp
next
  case (Suc n)
  have "replicate (Suc n) (QQubit zero) = replicate n (QQubit zero) @ [QQubit zero]"
    by (simp add: replicate_append_same)
  then show ?case
    using Suc by (simp add: Qubit_array_zero kron_vec_zero length_e0 del: replicate_Suc)
qed

lemma init_zero_qubits:
  "QuantumRegister_init (replicate n (QQubit zero)) =
     (if n = 0 then Inl AssertionError else Inr \<lparr>qr_n = n, qr_state = e0 n\<rparr>)"
  by (simp add: QuantumRegister_init_def Let_def list_all_iff foldl_zero_qubits length_e0)

section \<open>Real states\<close>

lemma Im_sum_list_zero:
  "(\<And>z. z \<in> set zs \<Longrightarrow> Im (g z) = 0) \<Longrightarrow> Im (sum_list (map g zs)) = 0"
  by (induction zs) auto

lemma matvec_real:
  assumes "list_all (\<lambda>z. Im z = 0) v"
  shows "list_all (\<lambda>z. Im z = 0) (matvec M v)"
proof -
  have "Im (sum_list (map (\<lambda>(a, x). complex_of_real a * x) (zip row v))) = 0" for row
  proof (rule Im_sum_list_zero)
    fix z assume z: "z \<in> set (zip row v)"
    obtain a x where ax: "z = (a, x)" by (cases z)
    have "x \<in> set v" using z ax set_zip_rightD by fastforce
    then have "Im x = 0" using assms by (simp add: list_all_iff)
    then show "Im (case z of (a, x) \<Rightarrow> complex_of_real a * x) = 0"
      by (simp add: ax)
  qed
  then show ?thesis by (simp add: matvec_def list_all_iff)
qed

lemma qr_apply_real_state:
  "qr_apply q g = Inr q' \<Longrightarrow> list_all (\<lambda>z. Im z = 0) (qr_state q)
     \<Longrightarrow> list_all (\<lambda>z. Im z = 0) (qr_state q')"
  by (auto simp: qr_apply_def Let_def matvec_real split: if_splits)

lemma e0_real: "list_all (\<lambda>z. Im z = 0) (e0 n)"
  by (induction n) (auto simp: list_all_iff)

lemma driver_state_real: "driver_state q \<Longrightarrow> list_all (\<lambda>z. Im z = 0) (qr_state q)"
proof (induction rule: driver_state.induct)
  case (ds_init n q)
  then show ?case by (auto simp: init_zero_qubits e0_real split: if_splits)
next
  case (ds_h q q')
  then show ?case by (auto simp: qr_h_eq matvec_real)
next
  case (ds_oracle q f o_f q')
  then show ?case using qr_apply_real_state by blast
next
  case (ds_r q q')
  then show ?case by (auto simp: qr_r_eq matvec_real)
qed

lemma grover_steps_driver_state:
  "phase_oracle f = Inr o_f \<Longrightarrow> driver_state q \<Longrightarrow> grover_steps o_f k q = Inr q'
     \<Longrightarrow> driver_state q'"
proof (induction k arbitrary: q)
  case 0
  then show ?case by simp
next
  case (Suc k)
  from Suc.prems(3) obtain q1 q2 where
    a: "qr_apply q (map (map complex_of_real) o_f) = Inr q1" and
    r: "qr_r q1 = Inr q2" and rest: "grover_steps o_f k q2 = Inr q'"
    by (auto split: sum.splits)
  have "driver_state q1" using ds_oracle[OF Suc.prems(2) Suc.prems(1) a] .
  then have "driver_state q2" using ds_r r by blast
  then show ?case using Suc.IH[OF Suc.prems(1) _ rest] by blast
qed

lemma hoh_register_driver_state: "hoh_register f = Inr q \<Longrightarrow> driver_state q"
proof -
  assume h: "hoh_register f = Inr q"
  then obtain n o_f q0 q1 q2 where
    "log2 (int (length f)) = Inr n" and o: "phase_oracle f = Inr o_f" and
    i: "QuantumRegister_init (map QQubit (replicate n zero)) = Inr q0" and
    h1: "qr_h q0 = Inr q1" and a: "qr_apply q1 (map (map complex_of_real) o_f) = Inr q2" and
    h2: "qr_h q2 = Inr q"
    by (auto simp: hoh_register_def split: sum.splits)
  have "driver_state q0" using ds_init[OF i] .
  then have "driver_state q1" using ds_h h1 by blast
  then have "driver_state q2" using ds_oracle o a by blast
  then show "driver_state q" using ds_h h2 by blast
qed

lemma grover_register_driver_state: "grover_register f = Inr q \<Longrightarrow> driver_state q"
proof -
  assume h: "grover_register f = Inr q"
  then obtain n o_f q0 q1 where
    "log2 (int (length f)) = Inr n" and o: "phase_oracle f = Inr o_f" and
    i: "QuantumRegister_init (map QQubit (replicate n zero)) = Inr q0" and
    h1: "qr_h q0 = Inr q1" and
    g: "grover_steps o_f (nat \<lfloor>pi * sqrt (2 ^ n) / 4\<rfloor>) q1 = Inr q"
    by (auto simp: grover_register_def split: sum.splits)
  have "driver_state q0" using ds_init[OF i] .
  then have "driver_state q1" using ds_h h1 by blast
  then show "driver_state q" using grover_steps_driver_state[OF o _ g] by blast
qed

section \<open>Construction from basis symbols\<close>

lemma foldl_bits_bound:
  "list_all (\<lambda>b. b = 0 \<or> b = 1) bs \<Longrightarrow>
     foldl (\<lambda>acc b. 2 * acc + b) acc bs < 2 ^ length bs * (acc + (1::nat))"
proof (induction bs arbitrary: acc)
  case Nil
  show ?case by simp
next
  case (Cons b bs)
  from Cons.prems have b: "b \<le> 1" and rest: "list_all (\<lambda>b. b = 0 \<or> b = 1) bs" by auto
  have "foldl (\<lambda>acc b. 2 * acc + b) (2 * acc + b) bs < 2 ^ length bs * (2 * acc + b + 1)"
    using Cons.IH[OF rest] .
  also have "\<dots> \<le> 2 ^ length bs * (2 * (acc + 1))"
    using b by (intro mult_left_mono) auto
  finally show ?case by (simp add: algebra_simps)
qed

lemma bits_value_bound:
  "list_all (\<lambda>b. b = 0 \<or> b = 1) bs \<Longrightarrow> bits_value bs < 2 ^ length bs"
  using foldl_bits_bound[of bs 0] by (simp add: bits_value_def)

lemma foldl_int_base2:
  "list_all (\<lambda>b. b = 0 \<or> b = 1) bs \<Longrightarrow>
     foldl (\<lambda>acc c. 2 * acc + (if c = CHR ''1'' then 1 else 0)) acc
       (concat (map (\<lambda>b. str_bit (int b)) bs))
     = foldl (\<lambda>acc b. 2 * acc + b) acc bs"
proof (induction bs arbitrary: acc)
  case Nil
  show ?case by simp
next
  case (Cons b bs)
  from Cons.prems have b: "b = 0 \<or> b = 1" and rest: "list_all (\<lambda>b. b = 0 \<or> b = 1) bs" by auto
  from b Cons.IH[OF rest] show ?case by (auto simp: str_bit_def)
qed

lemma int_base2_bits:
  "list_all (\<lambda>b. b = 0 \<or> b = 1) bs \<Longrightarrow>
     int_base2 (concat (map (\<lambda>b. str_bit (int b)) bs)) = bits_value bs"
  by (simp add: int_base2_def bits_value_def foldl_int_base2)

lemma init_strs:
  assumes "bs \<noteq> []" "list_all (\<lambda>b. b = 0 \<or> b = 1) bs"
  shows "QuantumRegister_init (map (\<lambda>b. QStr (str_bit (int b))) bs) =
     Inr \<lparr>qr_n = length bs, qr_state = (replicate (2 ^ length bs) 0)[bits_value bs := 1]\<rparr>"
proof -
  let ?qs = "map (\<lambda>b. QStr (str_bit (int b))) bs"
  obtain b0 bs' where bs: "bs = b0 # bs'" using assms(1) by (cases bs) auto
  have nq: "\<not> list_all is_QQubit ?qs" by (simp add: bs)
  have ni: "\<not> list_all is_QInt ?qs" by (simp add: bs)
  have st: "list_all is_QStr ?qs" by (simp add: list_all_iff)
  have ok: "list_all (\<lambda>q. q = QStr ''0'' \<or> q = QStr ''1'') ?qs"
    using assms(2) by (auto simp: list_all_iff str_bit_def)
  have cc: "concat (map str_of ?qs) = concat (map (\<lambda>b. str_bit (int b)) bs)"
    by (simp add: comp_def str_of_def)
  have idx: "int_base2 (concat (map str_of ?qs)) = bits_value bs"
    unfolding cc by (rule int_base2_bits[OF assms(2)])
  have len: "length ?qs = length bs" by simp
  show ?thesis
    unfolding QuantumRegister_init_def Let_def idx len
    using assms(1) nq ni st ok by (simp del: map_map add: idx)
qed

lemma init_ints:
  assumes "bs \<noteq> []" "list_all (\<lambda>b. b = 0 \<or> b = 1) bs"
  shows "QuantumRegister_init (map (\<lambda>b. QInt (int b)) bs) =
     Inr \<lparr>qr_n = length bs, qr_state = (replicate (2 ^ length bs) 0)[bits_value bs := 1]\<rparr>"
proof -
  let ?qs = "map (\<lambda>b. QInt (int b)) bs"
  obtain b0 bs' where bs: "bs = b0 # bs'" using assms(1) by (cases bs) auto
  have nq: "\<not> list_all is_QQubit ?qs" by (simp add: bs)
  have ai: "list_all is_QInt ?qs" by (simp add: list_all_iff)
  have ok: "list_all (\<lambda>q. q = QInt 0 \<or> q = QInt 1) ?qs"
    using assms(2) by (auto simp: list_all_iff)
  have ts: "map to_str ?qs = map (\<lambda>b. QStr (str_bit (int b))) bs"
    by (simp add: to_str_def)
  have st: "list_all is_QStr (map to_str ?qs)" unfolding ts by (simp add: list_all_iff)
  have ok2: "list_all (\<lambda>q. q = QStr ''0'' \<or> q = QStr ''1'') (map to_str ?qs)"
    unfolding ts using assms(2) by (auto simp: list_all_iff str_bit_def)
  have cc: "concat (map str_of (map to_str ?qs)) = concat (map (\<lambda>b. str_bit (int b)) bs)"
    unfolding ts by (simp add: comp_def str_of_def)
  have idx: "int_base2 (concat (map str_of (map to_str ?qs))) = bits_value bs"
    unfolding cc by (rule int_base2_bits[OF assms(2)])
  have len: "length ?qs = length bs" by simp
  show ?thesis
    unfolding QuantumRegister_init_def Let_def idx len
    using assms(1) nq ai ok st ok2 by (simp del: map_map add: idx)
qed

lemma valid_ints_repr:
  assumes "list_all (\<lambda>q. q = QInt 0 \<or> q = QInt 1) qs"
  shows "\<exists>bs. list_all (\<lambda>b. b = 0 \<or> b = 1) bs \<and> qs = map (\<lambda>b. QInt (int b)) bs"
proof -
  let ?bs = "map (\<lambda>q. if q = QInt 0 then 0 else (1::nat)) qs"
  have "list_all (\<lambda>b. b = 0 \<or> b = 1) ?bs" by (induction qs) auto
  moreover have "map (\<lambda>b. QInt (int b)) ?bs = qs"
    using assms by (induction qs) auto
  ultimately show ?thesis by metis
qed

lemma valid_strs_repr:
  assumes "list_all (\<lambda>q. q = QStr ''0'' \<or> q = QStr ''1'') qs"
  shows "\<exists>bs. list_all (\<lambda>b. b = 0 \<or> b = 1) bs \<and> qs = map (\<lambda>b. QStr (str_bit (int b))) bs"
proof -
  let ?bs = "map (\<lambda>q. if q = QStr ''0'' then 0 else (1::nat)) qs"
  have "list_all (\<lambda>b. b = 0 \<or> b = 1) ?bs" by (induction qs) auto
  moreover have "map (\<lambda>b. QStr (str_bit (int b))) ?bs = qs"
    using assms by (induction qs) (auto simp: str_bit_def)
  ultimately show ?thesis by metis
qed

lemma init_fails_iff:
  "QuantumRegister_init qs = Inl AssertionError \<longleftrightarrow>
     qs = [] \<or> \<not> (list_all is_QQubit qs \<or> list_all (\<lambda>q. q = QInt 0 \<or> q = QInt 1) qs
                    \<or> list_all (\<lambda>q. q = QStr ''0'' \<or> q = QStr ''1'') qs)"
proof (cases "qs = []")
  case True
  then show ?thesis by (simp add: QuantumRegister_init_def)
next
  case ne: False
  show ?thesis
  proof (cases "list_all is_QQubit qs")
    case True
    then show ?thesis using init_qubits_ok[OF ne True] ne by auto
  next
    case nq: False
    show ?thesis
    proof (cases "list_all (\<lambda>q. q = QInt 0 \<or> q = QInt 1) qs")
      case True
      from valid_ints_repr[OF True] obtain bs where
        bs: "list_all (\<lambda>b. b = 0 \<or> b = 1) bs" "qs = map (\<lambda>b. QInt (int b)) bs" by blast
      then have "bs \<noteq> []" using ne by auto
      from init_ints[OF this bs(1)] bs(2) True ne show ?thesis by simp
    next
      case vi: False
      show ?thesis
      proof (cases "list_all (\<lambda>q. q = QStr ''0'' \<or> q = QStr ''1'') qs")
        case True
        from valid_strs_repr[OF True] obtain bs where
          bs: "list_all (\<lambda>b. b = 0 \<or> b = 1) bs" "qs = map (\<lambda>b. QStr (str_bit (int b))) bs"
          by blast
        then have "bs \<noteq> []" using ne by auto
        from init_strs[OF this bs(1)] bs(2) True ne show ?thesis by simp
      next
        case vs: False
        have "QuantumRegister_init qs = Inl AssertionError"
        proof (cases "list_all is_QInt qs")
          case True
          then show ?thesis
            using ne nq vi by (simp add: QuantumRegister_init_def Let_def)
        next
          case False
          then show ?thesis
            using ne nq vs by (simp add: QuantumRegister_init_def Let_def)
        qed
        then show ?thesis using ne nq vi vs by simp
      qed
    qed
  qed
qed

text \<open>
  C8, as stated: a sequence whose elements are each an integer 0/1 or a string "0"/"1"
  gives a one-hot state. It does not when integers and strings are mixed: the sequence
  \<open>[0, "1"]\<close> is neither all integers nor all strings, and the constructor fails.
\<close>

theorem init_mixed_counterexample:
  "QuantumRegister_init [QInt 0, QStr ''1''] = Inl AssertionError"
  by (simp add: QuantumRegister_init_def Let_def)

text \<open>
  C8, amended: from a non-empty sequence of bits given all as integers 0/1 or all as
  strings "0"/"1", the constructor builds the one-hot state of length \<open>2 ^ n\<close> with
  amplitude 1 at the index read from the bits, most significant bit first. It fails
  exactly when the sequence is empty or is neither all qubits, nor all integers 0/1, nor
  all strings "0"/"1".
\<close>

theorem init_basis_state:
  "(bs \<noteq> [] \<and> list_all (\<lambda>b. b = 0 \<or> b = 1) bs
      \<and> (qs = map (\<lambda>b. QInt (int b)) bs \<or> qs = map (\<lambda>b. QStr (str_bit (int b))) bs)
     \<longrightarrow> bits_value bs < 2 ^ length bs
         \<and> QuantumRegister_init qs =
             Inr \<lparr>qr_n = length bs,
                  qr_state = (replicate (2 ^ length bs) 0)[bits_value bs := 1]\<rparr>)
   \<and> (QuantumRegister_init qs' = Inl AssertionError \<longleftrightarrow>
        qs' = [] \<or> \<not> (list_all is_QQubit qs'
                        \<or> list_all (\<lambda>q. q = QInt 0 \<or> q = QInt 1) qs'
                        \<or> list_all (\<lambda>q. q = QStr ''0'' \<or> q = QStr ''1'') qs'))"
  using init_ints init_strs bits_value_bound init_fails_iff by blast

theorem init_basis_state_witness:
  "bits_value [1, 0] < 2 ^ length [1, 0 :: nat]
   \<and> QuantumRegister_init (map (\<lambda>b. QInt (int b)) [1, 0]) =
       Inr \<lparr>qr_n = length [1, 0 :: nat],
            qr_state = (replicate (2 ^ length [1, 0 :: nat]) 0)[bits_value [1, 0] := 1]\<rparr>
   \<and> bits_value [1, 0] = 2
   \<and> QuantumRegister_init [QInt 2] = Inl AssertionError"
proof -
  have h: "[1, 0 :: nat] \<noteq> [] \<and> list_all (\<lambda>b. b = 0 \<or> b = 1) [1, 0 :: nat]
      \<and> (map (\<lambda>b. QInt (int b)) [1, 0] = map (\<lambda>b. QInt (int b)) [1, 0 :: nat]
         \<or> map (\<lambda>b. QInt (int b)) [1, 0] = map (\<lambda>b. QStr (str_bit (int b))) [1, 0 :: nat])"
    by simp
  have h2: "[QInt 2] = [] \<or> \<not> (list_all is_QQubit [QInt 2]
                        \<or> list_all (\<lambda>q. q = QInt 0 \<or> q = QInt 1) [QInt 2]
                        \<or> list_all (\<lambda>q. q = QStr ''0'' \<or> q = QStr ''1'') [QInt 2])"
    by simp
  have v: "bits_value [1, 0] = 2" by (simp add: bits_value_def)
  from init_basis_state[of "[1, 0]" "map (\<lambda>b. QInt (int b)) [1, 0]" "[QInt 2]"] h h2 v
  show ?thesis by blast
qed

section \<open>Rows times states\<close>

lemma matvec_dot: "matvec M v = map (\<lambda>row. dot row v) M"
  by (simp add: matvec_def dot_def)

lemma matvec_append: "matvec (A @ B) v = matvec A v @ matvec B v"
  by (simp add: matvec_def)

lemma dot_scale: "dot (map ((*) a) row) v = complex_of_real a * dot row v"
proof -
  have "map (\<lambda>(r, x). complex_of_real r * x) (zip (map ((*) a) row) v)
      = map (\<lambda>z. complex_of_real a * (case z of (r, x) \<Rightarrow> complex_of_real r * x)) (zip row v)"
    by (simp add: zip_map1 case_prod_unfold mult.assoc)
  then show ?thesis
    unfolding dot_def by (simp add: sum_list_const_mult)
qed

lemma dot_append:
  "length r1 = length u \<Longrightarrow> dot (r1 @ r2) (u @ w) = dot r1 u + dot r2 w"
  by (simp add: dot_def)

lemma map2_map_same:
  "map2 g (map h1 xs) (map h2 xs) = map (\<lambda>x. g (h1 x) (h2 x)) xs"
  by (induction xs) auto

lemma matvec_block:
  assumes "\<And>row. row \<in> set M \<Longrightarrow> length row = length u"
  shows "matvec (map (\<lambda>row. map ((*) a) row @ map ((*) b) row) M) (u @ w)
     = map2 (\<lambda>x y. complex_of_real a * x + complex_of_real b * y) (matvec M u) (matvec M w)"
proof -
  have "dot (map ((*) a) row @ map ((*) b) row) (u @ w)
      = complex_of_real a * dot row u + complex_of_real b * dot row w"
    if "row \<in> set M" for row
    using assms[OF that] by (simp add: dot_append dot_scale)
  then have "matvec (map (\<lambda>row. map ((*) a) row @ map ((*) b) row) M) (u @ w)
      = map (\<lambda>row. complex_of_real a * dot row u + complex_of_real b * dot row w) M"
    by (simp add: matvec_dot comp_def)
  then show ?thesis by (simp add: matvec_dot map2_map_same)
qed

lemma kron_H2:
  "kron H2 M = map (\<lambda>row. map ((*) SQRT1_2) row @ map ((*) SQRT1_2) row) M
             @ map (\<lambda>row. map ((*) SQRT1_2) row @ map ((*) (- SQRT1_2)) row) M"
  by (simp add: kron_def H2_def)

lemma matvec_kron_H2:
  assumes "\<And>row. row \<in> set M \<Longrightarrow> length row = length u"
  shows "matvec (kron H2 M) (u @ w)
     = map2 (\<lambda>x y. complex_of_real SQRT1_2 * (x + y)) (matvec M u) (matvec M w)
     @ map2 (\<lambda>x y. complex_of_real SQRT1_2 * (x - y)) (matvec M u) (matvec M w)"
proof -
  have 1: "matvec (map (\<lambda>row. map ((*) SQRT1_2) row @ map ((*) SQRT1_2) row) M) (u @ w)
     = map2 (\<lambda>x y. complex_of_real SQRT1_2 * (x + y)) (matvec M u) (matvec M w)"
    using matvec_block[of M u SQRT1_2 SQRT1_2 w, OF assms] by (simp add: algebra_simps)
  have 2: "matvec (map (\<lambda>row. map ((*) SQRT1_2) row @ map ((*) (- SQRT1_2)) row) M) (u @ w)
     = map2 (\<lambda>x y. complex_of_real SQRT1_2 * (x - y)) (matvec M u) (matvec M w)"
    using matvec_block[of M u SQRT1_2 "- SQRT1_2" w, OF assms] by (simp add: algebra_simps)
  show ?thesis
    unfolding kron_H2 matvec_append 1 2 ..
qed

lemma length_fwht: "length v = 2 ^ n \<Longrightarrow> length (fwht n v) = 2 ^ n"
  by (induction n arbitrary: v) (auto simp: Let_def)

lemma matvec_had: "length v = 2 ^ n \<Longrightarrow> matvec (had n) v = fwht n v"
proof (induction n arbitrary: v)
  case 0
  then obtain x where "v = [x]" by (cases v) auto
  then show ?case by (simp add: matvec_def)
next
  case (Suc n)
  let ?u = "take (2 ^ n) v" and ?w = "drop (2 ^ n) v"
  have lu: "length ?u = 2 ^ n" and lw: "length ?w = 2 ^ n"
    using Suc.prems by auto
  have rows: "\<And>row. row \<in> set (had n) \<Longrightarrow> length row = length ?u"
    using shape_is_had[of n] lu by (auto simp: shape_is_def list_all_iff)
  have "matvec (had (Suc n)) v = matvec (kron H2 (had n)) (?u @ ?w)"
    by simp
  also have "\<dots> = map2 (\<lambda>x y. complex_of_real SQRT1_2 * (x + y)) (matvec (had n) ?u) (matvec (had n) ?w)
     @ map2 (\<lambda>x y. complex_of_real SQRT1_2 * (x - y)) (matvec (had n) ?u) (matvec (had n) ?w)"
    by (rule matvec_kron_H2[OF rows])
  also have "\<dots> = fwht (Suc n) v"
    by (simp add: Suc.IH[OF lu] Suc.IH[OF lw] Let_def)
  finally show ?case .
qed

lemma qr_h_fwht:
  "length (qr_state r) = 2 ^ qr_n r \<Longrightarrow> qr_h r = Inr (r\<lparr>qr_state := fwht (qr_n r) (qr_state r)\<rparr>)"
  by (simp add: qr_h_eq matvec_had)

section \<open>The phase oracle on a state\<close>

lemma dot_sum:
  "dot row v = (\<Sum>i = 0..<min (length row) (length v). complex_of_real (row ! i) * v ! i)"
proof -
  have "dot row v = (\<Sum>i = 0..<length (zip row v).
      map (\<lambda>(a, x). complex_of_real a * x) (zip row v) ! i)"
    unfolding dot_def by (simp add: sum_list_sum_nth)
  also have "\<dots> = (\<Sum>i = 0..<min (length row) (length v). complex_of_real (row ! i) * v ! i)"
    by (rule sum.cong) auto
  finally show ?thesis .
qed

lemma dot_delta:
  assumes "i < p" "length v = p"
  shows "dot (map (\<lambda>j. if i = j then d else 0) [0..<p]) v = complex_of_real d * v ! i"
proof -
  have "dot (map (\<lambda>j. if i = j then d else 0) [0..<p]) v
      = (\<Sum>j = 0..<p. complex_of_real (map (\<lambda>j. if i = j then d else 0) [0..<p] ! j) * v ! j)"
    using assms by (simp add: dot_sum)
  also have "\<dots> = (\<Sum>j = 0..<p. if i = j then complex_of_real d * v ! j else 0)"
    by (rule sum.cong) auto
  also have "\<dots> = complex_of_real d * v ! i"
    using assms(1) by simp
  finally show ?thesis .
qed

lemma matvec_phase_oracle:
  assumes "phase_oracle f = Inr D" "length v = length f"
  shows "matvec D v = oracle_vec f v"
proof -
  let ?p = "length f"
  let ?diag = "map (\<lambda>x. (- 1) ^ nat x) f :: real list"
  have D: "D = map (\<lambda>i. map (\<lambda>j. if i = j then ?diag ! i else 0) [0..<?p]) [0..<?p]"
    using assms(1) by (auto simp: phase_oracle_def Let_def split: if_splits)
  show ?thesis
  proof (rule nth_equalityI)
    show "length (matvec D v) = length (oracle_vec f v)"
      using assms(2) by (simp add: D matvec_def oracle_vec_def)
  next
    fix i assume "i < length (matvec D v)"
    then have i: "i < ?p" by (simp add: D matvec_def)
    have "matvec D v ! i = dot (map (\<lambda>j. if i = j then ?diag ! i else 0) [0..<?p]) v"
      using i by (simp add: D matvec_dot)
    also have "\<dots> = complex_of_real (?diag ! i) * v ! i"
      using dot_delta[OF i assms(2)] .
    also have "\<dots> = oracle_vec f v ! i"
      using i assms(2) by (simp add: oracle_vec_def)
    finally show "matvec D v ! i = oracle_vec f v ! i" .
  qed
qed

lemma shape_is_phase_oracle:
  "phase_oracle f = Inr D \<Longrightarrow> shape_is D (length f) (length f)"
  by (auto simp: phase_oracle_def Let_def shape_is_def list_all_iff split: if_splits)

lemma length_oracle_vec: "length v = length f \<Longrightarrow> length (oracle_vec f v) = length f"
  by (simp add: oracle_vec_def)

lemma phase_oracle_ok:
  "list_all (\<lambda>x. x = 0 \<or> x = 1) f \<Longrightarrow> \<exists>D. phase_oracle f = Inr D"
  by (simp add: phase_oracle_def Let_def)

lemma hoh_register_eq:
  assumes n: "0 < n" and len: "length f = 2 ^ n" and bin: "list_all (\<lambda>x. x = 0 \<or> x = 1) f"
  shows "hoh_register f = Inr \<lparr>qr_n = n, qr_state = hoh_state n f\<rparr>"
proof -
  have lg: "log2 (int (length f)) = Inr n"
    using len log2_pow[of n] by simp
  obtain D where D: "phase_oracle f = Inr D" using phase_oracle_ok[OF bin] by blast
  let ?q0 = "\<lparr>qr_n = n, qr_state = e0 n\<rparr>"
  let ?q1 = "\<lparr>qr_n = n, qr_state = fwht n (e0 n)\<rparr>"
  let ?q2 = "\<lparr>qr_n = n, qr_state = oracle_vec f (fwht n (e0 n))\<rparr>"
  have i0: "QuantumRegister_init (map QQubit (replicate n zero)) = Inr ?q0"
    using n by (simp add: init_zero_qubits)
  have l1: "length (fwht n (e0 n)) = 2 ^ n" by (simp add: length_fwht length_e0)
  have h1: "qr_h ?q0 = Inr ?q1"
    using qr_h_fwht[of ?q0] by (simp add: length_e0)
  have a: "qr_apply ?q1 (map (map complex_of_real) D) = Inr ?q2"
    using shape_is_phase_oracle[OF D] matvec_phase_oracle[OF D, of "fwht n (e0 n)"] l1 len
    by (simp add: qr_apply_real qr_p_def)
  have h2: "qr_h ?q2 = Inr \<lparr>qr_n = n, qr_state = hoh_state n f\<rparr>"
    using qr_h_fwht[of ?q2] l1 len by (simp add: length_oracle_vec hoh_state_def)
  show ?thesis
    unfolding hoh_register_def by (simp add: lg D i0 h1 a h2 del: map_replicate)
qed

section \<open>The state after Hadamard, oracle, Hadamard\<close>

lemma SQRT1_2_sq: "SQRT1_2 * SQRT1_2 = 1 / 2"
  by (simp add: SQRT1_2_def)

lemma SQRT1_2_sq_complex: "complex_of_real SQRT1_2 * (complex_of_real SQRT1_2 * z) = z / 2"
proof -
  have "complex_of_real SQRT1_2 * complex_of_real SQRT1_2 = 1 / 2"
    using SQRT1_2_sq by (metis of_real_mult of_real_divide of_real_1 of_real_numeral)
  then show ?thesis by (simp add: mult.assoc[symmetric])
qed

lemma map2_replicate:
  "map2 g (replicate k a) (replicate k b) = replicate k (g a b)"
  by (induction k) auto

lemma fwht_zero: "fwht n (replicate (2 ^ n) 0) = replicate (2 ^ n) 0"
proof (induction n)
  case 0
  show ?case by simp
next
  case (Suc n)
  have "take (2 ^ n) (replicate (2 ^ Suc n) (0::complex)) = replicate (2 ^ n) 0"
    "drop (2 ^ n) (replicate (2 ^ Suc n) (0::complex)) = replicate (2 ^ n) 0"
    by simp_all
  then show ?case
    using Suc by (simp add: Let_def map2_replicate replicate_add[symmetric] del: replicate_Suc)
qed

lemma fwht_e0: "fwht n (e0 n) = replicate (2 ^ n) (complex_of_real (SQRT1_2 ^ n))"
proof (induction n)
  case 0
  show ?case by simp
next
  case (Suc n)
  have "fwht (Suc n) (e0 (Suc n)) =
      map2 (\<lambda>x y. complex_of_real SQRT1_2 * (x + y)) (fwht n (e0 n)) (fwht n (replicate (2 ^ n) 0))
    @ map2 (\<lambda>x y. complex_of_real SQRT1_2 * (x - y)) (fwht n (e0 n)) (fwht n (replicate (2 ^ n) 0))"
    by (simp add: Let_def length_e0)
  also have "\<dots> = replicate (2 ^ n) (complex_of_real (SQRT1_2 ^ Suc n))
                  @ replicate (2 ^ n) (complex_of_real (SQRT1_2 ^ Suc n))"
    by (simp add: Suc fwht_zero map2_replicate)
  finally show ?case by (simp add: replicate_add[symmetric] del: replicate_Suc)
qed

lemma map2_map_map:
  "map2 g (map h1 xs) (map h2 ys) = map2 (\<lambda>x y. g (h1 x) (h2 y)) xs ys"
  by (simp add: zip_map_map case_prod_unfold)

lemma fwht_scale: "fwht n (map ((*) k) v) = map ((*) k) (fwht n v)"
proof (induction n arbitrary: v)
  case 0
  show ?case by simp
next
  case (Suc n)
  have "fwht (Suc n) (map ((*) k) v) =
      map2 (\<lambda>x y. complex_of_real SQRT1_2 * (x + y))
        (fwht n (map ((*) k) (take (2 ^ n) v))) (fwht n (map ((*) k) (drop (2 ^ n) v)))
    @ map2 (\<lambda>x y. complex_of_real SQRT1_2 * (x - y))
        (fwht n (map ((*) k) (take (2 ^ n) v))) (fwht n (map ((*) k) (drop (2 ^ n) v)))"
    by (simp add: Let_def take_map drop_map)
  also have "\<dots> =
      map2 (\<lambda>x y. complex_of_real SQRT1_2 * (k * x + k * y))
        (fwht n (take (2 ^ n) v)) (fwht n (drop (2 ^ n) v))
    @ map2 (\<lambda>x y. complex_of_real SQRT1_2 * (k * x - k * y))
        (fwht n (take (2 ^ n) v)) (fwht n (drop (2 ^ n) v))"
    unfolding Suc map2_map_map ..
  also have "\<dots> = map ((*) k) (fwht (Suc n) v)"
    by (simp add: Let_def case_prod_unfold algebra_simps)
  finally show ?case .
qed

lemma oracle_vec_append:
  "length f0 = length v0 \<Longrightarrow>
     oracle_vec (f0 @ f1) (v0 @ v1) = oracle_vec f0 v0 @ oracle_vec f1 v1"
  by (simp add: oracle_vec_def)

lemma oracle_vec_scale: "oracle_vec f (map ((*) k) v) = map ((*) k) (oracle_vec f v)"
  by (simp add: oracle_vec_def zip_map2 case_prod_unfold algebra_simps)

lemma hoh_state_0: "hoh_state 0 [x] = [complex_of_real ((- 1) ^ nat x)]"
  by (simp add: hoh_state_def oracle_vec_def)

lemma hoh_state_Suc:
  assumes "length f0 = 2 ^ n" "length f1 = 2 ^ n"
  shows "hoh_state (Suc n) (f0 @ f1) =
       map2 (\<lambda>x y. (x + y) / 2) (hoh_state n f0) (hoh_state n f1)
     @ map2 (\<lambda>x y. (x - y) / 2) (hoh_state n f0) (hoh_state n f1)"
proof -
  let ?c = "complex_of_real SQRT1_2"
  let ?U = "fwht n (e0 n)"
  have lU: "length ?U = 2 ^ n" by (simp add: length_fwht length_e0)
  have "fwht (Suc n) (e0 (Suc n)) = replicate (2 ^ n) (?c * complex_of_real (SQRT1_2 ^ n))
      @ replicate (2 ^ n) (?c * complex_of_real (SQRT1_2 ^ n))"
    unfolding fwht_e0 by (simp add: replicate_add[symmetric] del: replicate_Suc)
  also have "\<dots> = map ((*) ?c) ?U @ map ((*) ?c) ?U"
    unfolding fwht_e0 by simp
  finally have U': "fwht (Suc n) (e0 (Suc n)) = map ((*) ?c) ?U @ map ((*) ?c) ?U" .
  let ?X = "map ((*) ?c) (oracle_vec f0 ?U)" and ?Y = "map ((*) ?c) (oracle_vec f1 ?U)"
  have ov: "oracle_vec (f0 @ f1) (fwht (Suc n) (e0 (Suc n))) = ?X @ ?Y"
    unfolding U' using assms lU by (simp add: oracle_vec_append oracle_vec_scale)
  have lX: "length ?X = 2 ^ n" using assms lU by (simp add: oracle_vec_def)
  have "hoh_state (Suc n) (f0 @ f1) = fwht (Suc n) (?X @ ?Y)"
    unfolding hoh_state_def ov ..
  also have "\<dots> = map2 (\<lambda>x y. ?c * (x + y)) (fwht n ?X) (fwht n ?Y)
                  @ map2 (\<lambda>x y. ?c * (x - y)) (fwht n ?X) (fwht n ?Y)"
    using lX by (simp add: Let_def)
  also have "\<dots> = map2 (\<lambda>x y. (x + y) / 2) (hoh_state n f0) (hoh_state n f1)
                  @ map2 (\<lambda>x y. (x - y) / 2) (hoh_state n f0) (hoh_state n f1)"
    unfolding fwht_scale hoh_state_def map2_map_map
    by (simp add: ring_distribs SQRT1_2_sq_complex add_divide_distrib diff_divide_distrib)
  finally show ?thesis .
qed

lemma length_hoh_state: "length f = 2 ^ n \<Longrightarrow> length (hoh_state n f) = 2 ^ n"
  by (simp add: hoh_state_def length_fwht length_e0 oracle_vec_def)

lemma sign_sum_append: "sign_sum (f0 @ f1) = sign_sum f0 + sign_sum f1"
  by (simp add: sign_sum_def)

lemma hoh_state_first:
  "length f = 2 ^ n \<Longrightarrow> hoh_state n f ! 0 = complex_of_real (sign_sum f / 2 ^ n)"
proof (induction n arbitrary: f)
  case 0
  then obtain x where "f = [x]" by (cases f) auto
  then show ?case by (simp add: hoh_state_0 sign_sum_def)
next
  case (Suc n)
  let ?f0 = "take (2 ^ n) f" and ?f1 = "drop (2 ^ n) f"
  have l0: "length ?f0 = 2 ^ n" and l1: "length ?f1 = 2 ^ n" using Suc.prems by auto
  have f: "f = ?f0 @ ?f1" by simp
  let ?A = "hoh_state n ?f0" and ?B = "hoh_state n ?f1"
  have lA: "length ?A = 2 ^ n" and lB: "length ?B = 2 ^ n"
    using l0 l1 by (simp_all add: length_hoh_state)
  have "hoh_state (Suc n) f ! 0 = (map2 (\<lambda>x y. (x + y) / 2) ?A ?B
     @ map2 (\<lambda>x y. (x - y) / 2) ?A ?B) ! 0"
    using hoh_state_Suc[OF l0 l1] by simp
  also have "\<dots> = (?A ! 0 + ?B ! 0) / 2"
    using lA lB by (simp add: nth_append)
  also have "\<dots> = complex_of_real (sign_sum f / 2 ^ Suc n)"
    using Suc.IH[OF l0] Suc.IH[OF l1] sign_sum_append[of ?f0 ?f1]
    by (simp add: add_divide_distrib mult.commute)
  finally show ?case .
qed

section \<open>Deutsch-Jozsa\<close>

lemma sign_sum_counts:
  "list_all (\<lambda>x. x = 0 \<or> x = 1) f \<Longrightarrow>
     sign_sum f = real (count_list f 0) - real (count_list f 1)"
  by (induction f) (auto simp: sign_sum_def)

lemma sign_sum_zeros: "list_all (\<lambda>x. x = 0) f \<Longrightarrow> sign_sum f = real (length f)"
  by (induction f) (auto simp: sign_sum_def)

lemma sign_sum_ones: "list_all (\<lambda>x. x = 1) f \<Longrightarrow> sign_sum f = - real (length f)"
  by (induction f) (auto simp: sign_sum_def)

lemma classify_values:
  "classify 1 = ''constant 0''" "classify (- 1) = ''constant 1''" "classify 0 = ''balanced''"
  by (simp_all add: classify_def allclose_def)

lemma dj_result_eq:
  assumes "0 < n" "length f = 2 ^ n" "list_all (\<lambda>x. x = 0 \<or> x = 1) f"
  shows "dj_result f = Inr (classify (sign_sum f / 2 ^ n))"
proof -
  have "qr_real \<lparr>qr_n = n, qr_state = hoh_state n f\<rparr> ! 0 = Re (hoh_state n f ! 0)"
    using length_hoh_state[OF assms(2)] by (simp add: qr_real_def)
  also have "\<dots> = sign_sum f / 2 ^ n"
    using hoh_state_first[OF assms(2)] by simp
  finally show ?thesis
    by (simp add: dj_result_def hoh_register_eq[OF assms])
qed

text \<open>
  C1: for every \<open>n \<ge> 1\<close> and every truth table \<open>f\<close> of length \<open>2 ^ n\<close> with values 0 and 1,
  the Deutsch-Jozsa driver returns the classification of the real part of the final
  amplitude at index 0, which is the sum of the signs \<open>(-1) ^ f[i]\<close> divided by \<open>2 ^ n\<close>:
  "constant 0" when \<open>f\<close> is all zeros, "constant 1" when \<open>f\<close> is all ones, "balanced" when
  \<open>f\<close> has as many zeros as ones, and "other" only when \<open>f\<close> is neither constant nor
  balanced.
\<close>

theorem deutsch_jozsa_classification:
  assumes "0 < n" "length f = 2 ^ n" "list_all (\<lambda>x. x = 0 \<or> x = 1) f"
  shows "snd (deutsch_jozsa_algorithm f verbose) = Inr (classify (sign_sum f / 2 ^ n))
    \<and> (list_all (\<lambda>x. x = 0) f \<longrightarrow>
         snd (deutsch_jozsa_algorithm f verbose) = Inr ''constant 0'')
    \<and> (list_all (\<lambda>x. x = 1) f \<longrightarrow>
         snd (deutsch_jozsa_algorithm f verbose) = Inr ''constant 1'')
    \<and> (count_list f 0 = count_list f 1 \<longrightarrow>
         snd (deutsch_jozsa_algorithm f verbose) = Inr ''balanced'')
    \<and> (snd (deutsch_jozsa_algorithm f verbose) = Inr ''other'' \<longrightarrow>
         \<not> list_all (\<lambda>x. x = 0) f \<and> \<not> list_all (\<lambda>x. x = 1) f
         \<and> count_list f 0 \<noteq> count_list f 1)"
proof -
  let ?res = "snd (deutsch_jozsa_algorithm f verbose)"
  have res: "?res = Inr (classify (sign_sum f / 2 ^ n))"
    by (simp add: snd_deutsch_jozsa dj_result_eq[OF assms])
  have z: "?res = Inr ''constant 0''" if "list_all (\<lambda>x. x = 0) f"
    using sign_sum_zeros[OF that] assms(2) by (simp add: res classify_values)
  have o: "?res = Inr ''constant 1''" if "list_all (\<lambda>x. x = 1) f"
  proof -
    have "sign_sum f / 2 ^ n = - 1"
      using sign_sum_ones[OF that] assms(2) by simp
    then show ?thesis by (simp add: res classify_values)
  qed
  have b: "?res = Inr ''balanced''" if "count_list f 0 = count_list f 1"
    using sign_sum_counts[OF assms(3)] that by (simp add: res classify_values)
  show ?thesis using res z o b by auto
qed

theorem deutsch_jozsa_classification_witness:
  "snd (deutsch_jozsa_algorithm [0, 0] 0) = Inr ''constant 0''
   \<and> snd (deutsch_jozsa_algorithm [1, 1] 0) = Inr ''constant 1''
   \<and> snd (deutsch_jozsa_algorithm [0, 1] 0) = Inr ''balanced''
   \<and> snd (deutsch_jozsa_algorithm [0, 0, 0, 1] 0) = Inr ''other''
   \<and> count_list [0, 0, 0, 1 :: int] 0 \<noteq> count_list [0, 0, 0, 1 :: int] 1"
proof -
  have n1: "0 < (1::nat)" by simp
  have n2: "0 < (2::nat)" by simp
  have l00: "length [0, 0 :: int] = 2 ^ 1" and b00: "list_all (\<lambda>x. x = 0 \<or> x = 1) [0, 0 :: int]"
    and z00: "list_all (\<lambda>x. x = 0) [0, 0 :: int]" by simp_all
  have l11: "length [1, 1 :: int] = 2 ^ 1" and b11: "list_all (\<lambda>x. x = 0 \<or> x = 1) [1, 1 :: int]"
    and o11: "list_all (\<lambda>x. x = 1) [1, 1 :: int]" by simp_all
  have l01: "length [0, 1 :: int] = 2 ^ 1" and b01: "list_all (\<lambda>x. x = 0 \<or> x = 1) [0, 1 :: int]"
    and c01: "count_list [0, 1 :: int] 0 = count_list [0, 1 :: int] 1" by simp_all
  have l4: "length [0, 0, 0, 1 :: int] = 2 ^ 2"
    and b4: "list_all (\<lambda>x. x = 0 \<or> x = 1) [0, 0, 0, 1 :: int]" by simp_all
  have c: "classify (sign_sum [0, 0, 0, 1] / 2 ^ 2) = ''other''"
    by (simp add: classify_def allclose_def sign_sum_def)
  have 1: "snd (deutsch_jozsa_algorithm [0, 0] 0) = Inr ''constant 0''"
    using deutsch_jozsa_classification[OF n1 l00 b00, of 0] z00 by blast
  have 2: "snd (deutsch_jozsa_algorithm [1, 1] 0) = Inr ''constant 1''"
    using deutsch_jozsa_classification[OF n1 l11 b11, of 0] o11 by blast
  have 3: "snd (deutsch_jozsa_algorithm [0, 1] 0) = Inr ''balanced''"
    using deutsch_jozsa_classification[OF n1 l01 b01, of 0] c01 by blast
  have 4: "snd (deutsch_jozsa_algorithm [0, 0, 0, 1] 0) = Inr ''other''"
    using deutsch_jozsa_classification[OF n2 l4 b4, of 0] c by simp
  have 5: "count_list [0, 0, 0, 1 :: int] 0 \<noteq> count_list [0, 0, 0, 1 :: int] 1"
    using deutsch_jozsa_classification[OF n2 l4 b4, of 0] 4 by blast
  show ?thesis using 1 2 3 4 5 by blast
qed

section \<open>Bit operations on natural numbers\<close>

lemma and_nat_step:
  "and (m::nat) k = (if odd m \<and> odd k then 1 else 0) + 2 * and (m div 2) (k div 2)"
  by (subst and_rec) simp

lemma and_high_left:
  "v < 2 ^ n \<Longrightarrow> y < 2 ^ n \<Longrightarrow> and (2 ^ n + v) y = and v (y::nat)"
proof (induction n arbitrary: v y)
  case 0
  then show ?case by simp
next
  case (Suc n)
  have dv: "v div 2 < 2 ^ n" and dy: "y div 2 < 2 ^ n" using Suc.prems by auto
  have "and (2 ^ Suc n + v) y
      = (if odd (2 ^ Suc n + v) \<and> odd y then 1 else 0) + 2 * and ((2 ^ Suc n + v) div 2) (y div 2)"
    by (rule and_nat_step)
  also have "(2 ^ Suc n + v) div 2 = 2 ^ n + v div 2" by simp
  also have "odd (2 ^ Suc n + v) = odd v" by simp
  also have "and (2 ^ n + v div 2) (y div 2) = and (v div 2) (y div 2)"
    by (rule Suc.IH[OF dv dy])
  also have "(if odd v \<and> odd y then 1 else 0) + 2 * and (v div 2) (y div 2) = and v y"
    by (rule and_nat_step[symmetric])
  finally show ?case .
qed

lemma and_high_both:
  "v < 2 ^ n \<Longrightarrow> y < 2 ^ n \<Longrightarrow> and (2 ^ n + v) (2 ^ n + y) = 2 ^ n + and v (y::nat)"
proof (induction n arbitrary: v y)
  case 0
  then show ?case by simp
next
  case (Suc n)
  have dv: "v div 2 < 2 ^ n" and dy: "y div 2 < 2 ^ n" using Suc.prems by auto
  have "and (2 ^ Suc n + v) (2 ^ Suc n + y)
      = (if odd (2 ^ Suc n + v) \<and> odd (2 ^ Suc n + y) then 1 else 0)
        + 2 * and ((2 ^ Suc n + v) div 2) ((2 ^ Suc n + y) div 2)"
    by (rule and_nat_step)
  also have "(2 ^ Suc n + v) div 2 = 2 ^ n + v div 2" by simp
  also have "(2 ^ Suc n + y) div 2 = 2 ^ n + y div 2" by simp
  also have "odd (2 ^ Suc n + v) = odd v" by simp
  also have "odd (2 ^ Suc n + y) = odd y" by simp
  also have "and (2 ^ n + v div 2) (2 ^ n + y div 2) = 2 ^ n + and (v div 2) (y div 2)"
    by (rule Suc.IH[OF dv dy])
  also have "(if odd v \<and> odd y then 1 else 0) + 2 * (2 ^ n + and (v div 2) (y div 2))
      = 2 ^ Suc n + ((if odd v \<and> odd y then 1 else 0) + 2 * and (v div 2) (y div 2))"
    by simp
  also have "(if odd v \<and> odd y then 1 else 0) + 2 * and (v div 2) (y div 2) = and v y"
    by (rule and_nat_step[symmetric])
  finally show ?case .
qed

lemma and_low_right:
  "v < 2 ^ n \<Longrightarrow> y < 2 ^ n \<Longrightarrow> and v (2 ^ n + y) = and v (y::nat)"
  using and_high_left[of y n v] by (simp add: and.commute)

lemma and_nat_le: "and v (y::nat) \<le> v"
proof (induction v arbitrary: y rule: less_induct)
  case (less v)
  show ?case
  proof (cases "v = 0")
    case True
    then show ?thesis by simp
  next
    case False
    then have "v div 2 < v" by simp
    from less[OF this, of "y div 2"] have "2 * and (v div 2) (y div 2) \<le> 2 * (v div 2)" by simp
    moreover have "and v y = (if odd v \<and> odd y then 1 else 0) + 2 * and (v div 2) (y div 2)"
      by (rule and_nat_step)
    ultimately show ?thesis by (cases "odd v") (auto elim: oddE)
  qed
qed

lemma popcount_high: "z < 2 ^ n \<Longrightarrow> popcount (2 ^ n + z) = Suc (popcount z)"
proof (induction n arbitrary: z)
  case 0
  then show ?case by (simp add: popcount.simps)
next
  case (Suc n)
  have dz: "z div 2 < 2 ^ n" using Suc.prems by auto
  have "popcount (2 ^ Suc n + z) = (2 ^ Suc n + z) mod 2 + popcount ((2 ^ Suc n + z) div 2)"
    by (subst popcount.simps) simp
  also have "(2 ^ Suc n + z) div 2 = 2 ^ n + z div 2" by simp
  also have "(2 ^ Suc n + z) mod 2 = z mod 2" by simp
  also have "popcount (2 ^ n + z div 2) = Suc (popcount (z div 2))"
    by (rule Suc.IH[OF dz])
  also have "z mod 2 + Suc (popcount (z div 2)) = Suc (popcount z)"
    by (subst (2) popcount.simps) (auto simp: popcount.simps)
  finally show ?case .
qed

section \<open>Keys and their digits\<close>

lemma foldl_base2_snoc:
  "foldl (\<lambda>acc c. 2 * acc + g c) (0::nat) (cs @ [c]) = 2 * foldl (\<lambda>acc c. 2 * acc + g c) 0 cs + g c"
  by simp

lemma key_value_snoc:
  "key_value (s @ [d]) = 2 * key_value s + (if d = 0 then 0 else 1)"
  by (simp add: key_value_def int_base2_def str_bit_def)

lemma key_value_lsb:
  "list_all (\<lambda>x. x = 0 \<or> x = 1) s \<Longrightarrow> key_value s = lsb_value (rev s)"
proof (induction s rule: rev_induct)
  case Nil
  show ?case by (simp add: key_value_def int_base2_def)
next
  case (snoc d s)
  then have "d = 0 \<or> d = 1" and "list_all (\<lambda>x. x = 0 \<or> x = 1) s" by auto
  then show ?case using snoc.IH by (auto simp: key_value_snoc)
qed

lemma lsb_value_bound:
  "list_all (\<lambda>x. x = 0 \<or> x = 1) ds \<Longrightarrow> lsb_value ds < 2 ^ length ds"
  by (induction ds) auto

lemma lsb_value_append:
  "lsb_value (xs @ ys) = lsb_value xs + 2 ^ length xs * lsb_value ys"
  by (induction xs) (auto simp: algebra_simps)

lemma key_value_bound:
  "list_all (\<lambda>x. x = 0 \<or> x = 1) s \<Longrightarrow> key_value s < 2 ^ length s"
  using lsb_value_bound[of "rev s"] by (simp add: key_value_lsb)

lemma key_value_Cons:
  assumes "b = 0 \<or> b = 1" "list_all (\<lambda>x. x = 0 \<or> x = 1) s"
  shows "key_value (b # s) = nat b * 2 ^ length s + key_value s"
proof -
  have "key_value (b # s) = lsb_value (rev s @ [b])"
    using assms by (simp add: key_value_lsb)
  also have "\<dots> = lsb_value (rev s) + 2 ^ length s * nat b"
    by (simp add: lsb_value_append)
  finally show ?thesis using assms(2) by (simp add: key_value_lsb)
qed

lemma lsb_value_inj:
  assumes "length xs = length ys"
    "list_all (\<lambda>x. x = 0 \<or> x = 1) xs" "list_all (\<lambda>x. x = 0 \<or> x = 1) ys"
    "lsb_value xs = lsb_value ys"
  shows "xs = ys"
  using assms
proof (induction xs ys rule: list_induct2)
  case Nil
  show ?case by simp
next
  case (Cons x xs y ys)
  from Cons.prems have x: "x = 0 \<or> x = 1" and y: "y = 0 \<or> y = 1" by auto
  from Cons.prems have eq: "nat x + 2 * lsb_value xs = nat y + 2 * lsb_value ys" by simp
  from x y eq have "x = y" by (auto; presburger)
  with eq have "lsb_value xs = lsb_value ys" by simp
  with Cons show ?case using \<open>x = y\<close> by simp
qed

lemma bin_digits_value: "lsb_value (rev (bin_digits m)) = m"
proof (induction m rule: less_induct)
  case (less m)
  show ?case
  proof (cases "m < 2")
    case True
    then show ?thesis by (subst bin_digits.simps) simp
  next
    case False
    then have "m div 2 < m" by simp
    from less[OF this] False show ?thesis
      by (subst bin_digits.simps) simp
  qed
qed

lemma bin_digits_binary: "list_all (\<lambda>x. x = 0 \<or> x = 1) (bin_digits m)"
proof (induction m rule: less_induct)
  case (less m)
  show ?case
  proof (cases "m < 2")
    case True
    then show ?thesis by (subst bin_digits.simps) auto
  next
    case False
    then have "m div 2 < m" by simp
    from less[OF this] False show ?thesis
      by (subst bin_digits.simps) auto
  qed
qed

lemma bin_digits_length: "0 < n \<Longrightarrow> m < 2 ^ n \<Longrightarrow> length (bin_digits m) \<le> n"
proof (induction n arbitrary: m)
  case 0
  then show ?case by simp
next
  case (Suc n)
  show ?case
  proof (cases "m < 2")
    case True
    then show ?thesis by (subst bin_digits.simps) simp
  next
    case False
    then have n: "0 < n" using Suc.prems by (cases n) auto
    have "m div 2 < 2 ^ n" using Suc.prems by auto
    from Suc.IH[OF n this] False show ?thesis
      by (subst bin_digits.simps) simp
  qed
qed

lemma lsb_value_zeros: "lsb_value (ds @ replicate k 0) = lsb_value ds"
  by (induction ds) (auto, induction k, auto)

lemma format_key:
  assumes "0 < length s" "list_all (\<lambda>x. x = 0 \<or> x = 1) s"
  shows "format_0nb (key_value s) (length s) = s"
proof -
  let ?m = "key_value s" and ?n = "length s"
  let ?r = "format_0nb ?m ?n"
  have len: "length (bin_digits ?m) \<le> ?n"
    using bin_digits_length[OF assms(1) key_value_bound[OF assms(2)]] .
  then have l: "length ?r = ?n" by (simp add: format_0nb_def)
  have b: "list_all (\<lambda>x. x = 0 \<or> x = 1) ?r"
    using bin_digits_binary[of ?m] by (auto simp: format_0nb_def list_all_iff)
  have "lsb_value (rev ?r) = lsb_value (rev (bin_digits ?m))"
    by (simp add: format_0nb_def lsb_value_zeros)
  also have "\<dots> = lsb_value (rev s)"
    using key_value_lsb[OF assms(2)] by (simp add: bin_digits_value)
  finally have v: "lsb_value (rev ?r) = lsb_value (rev s)" .
  have "rev ?r = rev s"
    using lsb_value_inj[of "rev ?r" "rev s"] l b assms(2) v by (simp add: list_all_iff)
  then show ?thesis by simp
qed

section \<open>The largest entry\<close>

lemma argmax_from_keep:
  "(\<And>x. x \<in> set xs \<Longrightarrow> x \<le> best) \<Longrightarrow> argmax_from xs i best_i best = best_i"
proof (induction xs arbitrary: i)
  case Nil
  show ?case by simp
next
  case (Cons x xs)
  have "x \<le> best" using Cons.prems[of x] by simp
  moreover have "argmax_from xs (Suc i) best_i best = best_i"
    using Cons.IH[of "Suc i"] Cons.prems by simp
  ultimately show ?case by simp
qed

lemma argmax_from_unique:
  assumes "k < length xs" "best < xs ! k" "\<And>j. j < length xs \<Longrightarrow> j \<noteq> k \<Longrightarrow> xs ! j < xs ! k"
  shows "argmax_from xs i best_i best = i + k"
  using assms
proof (induction xs arbitrary: i k best_i best)
  case Nil
  then show ?case by simp
next
  case (Cons x xs)
  show ?case
  proof (cases k)
    case 0
    have "\<And>y. y \<in> set xs \<Longrightarrow> y \<le> x"
    proof -
      fix y assume "y \<in> set xs"
      then obtain j where "j < length xs" "xs ! j = y" by (auto simp: in_set_conv_nth)
      then show "y \<le> x" using Cons.prems(3)[of "Suc j"] 0 by auto
    qed
    then show ?thesis using Cons.prems(2) 0 by (simp add: argmax_from_keep)
  next
    case (Suc k')
    have k': "k' < length xs" using Cons.prems(1) Suc by simp
    have x: "x < xs ! k'" using Cons.prems(3)[of 0] Suc by simp
    have b: "best < xs ! k'" using Cons.prems(2) Suc by simp
    have others: "\<And>j. j < length xs \<Longrightarrow> j \<noteq> k' \<Longrightarrow> xs ! j < xs ! k'"
      using Cons.prems(3)[of "Suc j" for j] Suc by auto
    show ?thesis
      using Cons.IH[OF k' x others, of "Suc i" i] Cons.IH[OF k' b others, of "Suc i" best_i] Suc
      by simp
  qed
qed

lemma argmax_unique:
  assumes "k < length xs" "\<And>j. j < length xs \<Longrightarrow> j \<noteq> k \<Longrightarrow> xs ! j < xs ! k"
  shows "argmax xs = Inr k"
proof (cases xs)
  case Nil
  then show ?thesis using assms(1) by simp
next
  case (Cons x xs')
  show ?thesis
  proof (cases k)
    case 0
    have "\<And>y. y \<in> set xs' \<Longrightarrow> y \<le> x"
    proof -
      fix y assume "y \<in> set xs'"
      then obtain j where "j < length xs'" "xs' ! j = y" by (auto simp: in_set_conv_nth)
      then show "y \<le> x" using assms(2)[of "Suc j"] 0 Cons by auto
    qed
    then show ?thesis using 0 Cons by (simp add: argmax_def argmax_from_keep)
  next
    case (Suc k')
    have k': "k' < length xs'" using assms(1) Suc Cons by simp
    have x: "x < xs' ! k'" using assms(2)[of 0] Suc Cons by simp
    have others: "\<And>j. j < length xs' \<Longrightarrow> j \<noteq> k' \<Longrightarrow> xs' ! j < xs' ! k'"
      using assms(2)[of "Suc j" for j] Suc Cons by auto
    show ?thesis
      using argmax_from_unique[OF k' x others, of 1 0] Suc Cons by (simp add: argmax_def)
  qed
qed

section \<open>Bernstein-Vazirani\<close>

lemma upt_double:
  "[0..<2 ^ Suc n] = [0..<2 ^ n] @ map (\<lambda>y. 2 ^ n + y) [0..<2 ^ n]"
proof -
  have "[0..<2 ^ Suc n] = [0..<2 ^ n + 2 ^ n]" by (simp add: mult_2)
  also have "\<dots> = [0..<2 ^ n] @ [2 ^ n..<2 ^ n + 2 ^ n]"
    using upt_add_eq_append[of 0 "2 ^ n" "2 ^ n"] by simp
  also have "[2 ^ n..<2 ^ n + 2 ^ n] = map (\<lambda>y. 2 ^ n + y) [0..<2 ^ n]"
    using map_add_upt[of "2 ^ n" "2 ^ n"] by (simp add: add.commute)
  finally show ?thesis .
qed

lemma popcount_0: "popcount 0 = 0"
  by (subst popcount.simps) simp

lemma encode_binary: "list_all (\<lambda>x. x = 0 \<or> x = 1) (encode s)"
  by (auto simp: encode_def Let_def list_all_iff)

lemma length_encode: "length (encode s) = 2 ^ length s"
  by (simp add: encode_def Let_def)

lemma encode_Cons0:
  assumes "list_all (\<lambda>x. x = 0 \<or> x = 1) s"
  shows "encode (0 # s) = encode s @ encode s"
proof -
  let ?n = "length s" and ?v = "key_value s"
  have v: "?v < 2 ^ ?n" using key_value_bound[OF assms] .
  have kv: "key_value (0 # s) = ?v" using key_value_Cons[of 0 s] assms by simp
  have hi: "map (\<lambda>x. int (popcount (and ?v x) mod 2)) (map (\<lambda>y. 2 ^ ?n + y) [0..<2 ^ ?n])
      = map (\<lambda>x. int (popcount (and ?v x) mod 2)) [0..<2 ^ ?n]"
    using v by (simp add: and_low_right)
  have "encode (0 # s) = map (\<lambda>x. int (popcount (and ?v x) mod 2)) [0..<2 ^ Suc ?n]"
    unfolding encode_def Let_def kv length_Cons ..
  also have "\<dots> = encode s @ encode s"
    unfolding upt_double map_append hi encode_def Let_def ..
  finally show ?thesis .
qed

lemma encode_Cons1:
  assumes "list_all (\<lambda>x. x = 0 \<or> x = 1) s"
  shows "encode (1 # s) = encode s @ map (\<lambda>y. 1 - y) (encode s)"
proof -
  let ?n = "length s" and ?v = "key_value s"
  have v: "?v < 2 ^ ?n" using key_value_bound[OF assms] .
  have kv: "key_value (1 # s) = 2 ^ ?n + ?v" using key_value_Cons[of 1 s] assms by simp
  have lo: "map (\<lambda>x. int (popcount (and (2 ^ ?n + ?v) x) mod 2)) [0..<2 ^ ?n]
      = map (\<lambda>x. int (popcount (and ?v x) mod 2)) [0..<2 ^ ?n]"
    using v by (simp add: and_high_left)
  have step: "int (popcount (and (2 ^ ?n + ?v) (2 ^ ?n + y)) mod 2)
      = 1 - int (popcount (and ?v y) mod 2)" if "y < 2 ^ ?n" for y
  proof -
    have "and ?v y < 2 ^ ?n" using and_nat_le[of ?v y] v by simp
    then have "popcount (and (2 ^ ?n + ?v) (2 ^ ?n + y)) = Suc (popcount (and ?v y))"
      using and_high_both[OF v that] popcount_high by simp
    then show ?thesis by (simp add: mod_Suc)
  qed
  have hi: "map (\<lambda>x. int (popcount (and (2 ^ ?n + ?v) x) mod 2)) (map (\<lambda>y. 2 ^ ?n + y) [0..<2 ^ ?n])
      = map (\<lambda>y. 1 - y) (map (\<lambda>x. int (popcount (and ?v x) mod 2)) [0..<2 ^ ?n])"
    using step by simp
  have "encode (1 # s) = map (\<lambda>x. int (popcount (and (2 ^ ?n + ?v) x) mod 2)) [0..<2 ^ Suc ?n]"
    unfolding encode_def Let_def kv length_Cons ..
  also have "\<dots> = encode s @ map (\<lambda>y. 1 - y) (encode s)"
    unfolding upt_double map_append lo hi encode_def Let_def ..
  finally show ?thesis .
qed

lemma oracle_vec_flip:
  "list_all (\<lambda>x. x = 0 \<or> x = 1) f \<Longrightarrow>
     oracle_vec (map (\<lambda>y. 1 - y) f) v = map ((*) (- 1)) (oracle_vec f v)"
proof (induction f arbitrary: v)
  case Nil
  show ?case by (simp add: oracle_vec_def)
next
  case (Cons x f)
  then have x: "x = 0 \<or> x = 1" and f: "list_all (\<lambda>x. x = 0 \<or> x = 1) f" by auto
  show ?case
  proof (cases v)
    case Nil
    then show ?thesis by (simp add: oracle_vec_def)
  next
    case (Cons z v')
    have "oracle_vec (map (\<lambda>y. 1 - y) f) v' = map ((*) (- 1)) (oracle_vec f v')"
      using Cons.IH[OF f] .
    then show ?thesis using x Cons by (auto simp: oracle_vec_def)
  qed
qed

lemma hoh_state_flip:
  assumes "list_all (\<lambda>x. x = 0 \<or> x = 1) f"
  shows "hoh_state n (map (\<lambda>y. 1 - y) f) = map ((*) (- 1)) (hoh_state n f)"
  unfolding hoh_state_def oracle_vec_flip[OF assms] fwht_scale ..

lemma map2_same: "map2 g xs xs = map (\<lambda>x. g x x) xs"
  by (simp add: zip_same_conv_map)

lemma map2_map_right: "map2 g xs (map h xs) = map (\<lambda>x. g x (h x)) xs"
  using map2_map_same[of g "\<lambda>x. x" xs h] by simp

lemma onehot_append_zeros: "i < p \<Longrightarrow> onehot p i @ replicate p 0 = onehot (p + p) i"
  by (simp add: onehot_def list_update_append1 replicate_add del: replicate_Suc)

lemma zeros_append_onehot: "replicate p 0 @ onehot p i = onehot (p + p) (p + i)"
  by (simp add: onehot_def list_update_append replicate_add)

lemma hoh_state_encode:
  "list_all (\<lambda>x. x = 0 \<or> x = 1) s \<Longrightarrow>
     hoh_state (length s) (encode s) = onehot (2 ^ length s) (key_value s)"
proof (induction s)
  case Nil
  have "encode [] = [0]"
    by (simp add: encode_def Let_def key_value_def int_base2_def popcount_0)
  then show ?case by (simp add: hoh_state_0 onehot_def key_value_def int_base2_def)
next
  case (Cons b s)
  then have b: "b = 0 \<or> b = 1" and s: "list_all (\<lambda>x. x = 0 \<or> x = 1) s" by auto
  let ?n = "length s"
  let ?A = "hoh_state ?n (encode s)"
  have A: "?A = onehot (2 ^ ?n) (key_value s)" using Cons.IH[OF s] .
  have lA: "length ?A = 2 ^ ?n" by (simp add: A onehot_def)
  have v: "key_value s < 2 ^ ?n" using key_value_bound[OF s] .
  have le: "length (encode s) = 2 ^ ?n" by (rule length_encode)
  from b show ?case
  proof
    assume b0: "b = 0"
    have "hoh_state (Suc ?n) (encode (0 # s))
        = map2 (\<lambda>x y. (x + y) / 2) ?A ?A @ map2 (\<lambda>x y. (x - y) / 2) ?A ?A"
      unfolding encode_Cons0[OF s] by (rule hoh_state_Suc[OF le le])
    also have "\<dots> = ?A @ replicate (2 ^ ?n) 0"
      using lA by (simp add: map2_same map_replicate_const)
    also have "\<dots> = onehot (2 ^ Suc ?n) (key_value (0 # s))"
      unfolding A using onehot_append_zeros[OF v] key_value_Cons[of 0 s] s by (simp add: mult_2)
    finally show ?thesis using b0 by simp
  next
    assume b1: "b = 1"
    let ?B = "hoh_state ?n (map (\<lambda>y. 1 - y) (encode s))"
    have B: "?B = map ((*) (- 1)) ?A"
      by (rule hoh_state_flip[OF encode_binary])
    have le': "length (map (\<lambda>y. 1 - y) (encode s)) = 2 ^ ?n" using le by simp
    have "hoh_state (Suc ?n) (encode (1 # s))
        = map2 (\<lambda>x y. (x + y) / 2) ?A ?B @ map2 (\<lambda>x y. (x - y) / 2) ?A ?B"
      unfolding encode_Cons1[OF s] by (rule hoh_state_Suc[OF le le'])
    also have "\<dots> = replicate (2 ^ ?n) 0 @ ?A"
      unfolding B using lA by (simp add: map2_map_right map_replicate_const)
    also have "\<dots> = onehot (2 ^ Suc ?n) (key_value (1 # s))"
      unfolding A using zeros_append_onehot[of "2 ^ ?n" "key_value s"] key_value_Cons[of 1 s] s
      by (simp add: mult_2)
    finally show ?thesis using b1 by simp
  qed
qed

lemma onehot_nth: "j < p \<Longrightarrow> onehot p i ! j = (if j = i then 1 else 0)"
  by (simp add: onehot_def nth_list_update)

lemma argmax_onehot:
  assumes "i < p"
  shows "argmax (map Re (onehot p i)) = Inr i"
proof (rule argmax_unique)
  show "i < length (map Re (onehot p i))" using assms by (simp add: onehot_def)
next
  fix j assume "j < length (map Re (onehot p i))" "j \<noteq> i"
  then show "map Re (onehot p i) ! j < map Re (onehot p i) ! i"
    using assms by (simp add: onehot_def)
qed

text \<open>
  C3: for every non-empty binary key \<open>s\<close> (so for every length from 1 to 7), the
  Bernstein-Vazirani driver, run on the truth table \<open>f(x) = popcount(s AND x) mod 2\<close> that
  \<^const>\<open>encode\<close> builds for the basis inputs \<open>x\<close>, returns \<open>s\<close>: the final state is 1 at the
  index that \<open>s\<close> denotes and 0 elsewhere, and the index of the largest real amplitude,
  written with \<open>n\<close> binary digits, is \<open>s\<close>.
\<close>

theorem bernstein_vazirani_finds_key:
  assumes "0 < length s" "list_all (\<lambda>x. x = 0 \<or> x = 1) s"
  shows "snd (bernstein_vazirani_algorithm (encode s) verbose) = Inr s"
proof -
  let ?n = "length s"
  have reg: "hoh_register (encode s) = Inr \<lparr>qr_n = ?n, qr_state = hoh_state ?n (encode s)\<rparr>"
    using hoh_register_eq[OF assms(1) length_encode encode_binary] .
  have st: "hoh_state ?n (encode s) = onehot (2 ^ ?n) (key_value s)"
    using hoh_state_encode[OF assms(2)] .
  have am: "argmax (map Re (onehot (2 ^ ?n) (key_value s))) = Inr (key_value s)"
    using argmax_onehot[OF key_value_bound[OF assms(2)]] .
  have "bv_result (encode s) = Inr (format_0nb (key_value s) ?n)"
    by (simp add: bv_result_def reg st qr_real_def am)
  then show ?thesis
    by (simp add: snd_bernstein_vazirani format_key[OF assms])
qed

theorem bernstein_vazirani_finds_key_witness:
  "snd (bernstein_vazirani_algorithm (encode [1, 0, 1]) 0) = Inr [1, 0, 1]"
proof -
  have l: "0 < length [1, 0, 1 :: int]" by simp
  have b: "list_all (\<lambda>x. x = 0 \<or> x = 1) [1, 0, 1 :: int]" by simp
  show ?thesis using bernstein_vazirani_finds_key[OF l b, of 0] .
qed

section \<open>The Hadamard matrix is self-inverse\<close>

lemma fwht_lin:
  "length a = 2 ^ n \<Longrightarrow> length b = 2 ^ n \<Longrightarrow>
     fwht n (map2 (\<lambda>x y. \<alpha> * x + \<beta> * y) a b)
       = map2 (\<lambda>x y. \<alpha> * x + \<beta> * y) (fwht n a) (fwht n b)"
proof (induction n arbitrary: a b)
  case 0
  show ?case by simp
next
  case (Suc n)
  let ?g = "\<lambda>x y. \<alpha> * x + \<beta> * y"
  let ?a0 = "take (2 ^ n) a" and ?a1 = "drop (2 ^ n) a"
  let ?b0 = "take (2 ^ n) b" and ?b1 = "drop (2 ^ n) b"
  have l: "length ?a0 = 2 ^ n" "length ?a1 = 2 ^ n" "length ?b0 = 2 ^ n" "length ?b1 = 2 ^ n"
    using Suc.prems by auto
  let ?A0 = "fwht n ?a0" and ?A1 = "fwht n ?a1" and ?B0 = "fwht n ?b0" and ?B1 = "fwht n ?b1"
  have L: "length ?A0 = 2 ^ n" "length ?A1 = 2 ^ n" "length ?B0 = 2 ^ n" "length ?B1 = 2 ^ n"
    using l by (simp_all add: length_fwht)
  have t: "take (2 ^ n) (map2 ?g a b) = map2 ?g ?a0 ?b0"
    by (simp add: take_map take_zip)
  have d: "drop (2 ^ n) (map2 ?g a b) = map2 ?g ?a1 ?b1"
    by (simp add: drop_map drop_zip)
  have i0: "fwht n (map2 ?g ?a0 ?b0) = map2 ?g ?A0 ?B0"
    using Suc.IH[OF l(1) l(3)] .
  have i1: "fwht n (map2 ?g ?a1 ?b1) = map2 ?g ?A1 ?B1"
    using Suc.IH[OF l(2) l(4)] .
  let ?c = "complex_of_real SQRT1_2"
  have lhs: "fwht (Suc n) (map2 ?g a b)
      = map2 (\<lambda>x y. ?c * (x + y)) (map2 ?g ?A0 ?B0) (map2 ?g ?A1 ?B1)
      @ map2 (\<lambda>x y. ?c * (x - y)) (map2 ?g ?A0 ?B0) (map2 ?g ?A1 ?B1)"
    unfolding fwht.simps Let_def t d i0 i1 ..
  have p: "map2 (\<lambda>x y. ?c * (x + y)) (map2 ?g ?A0 ?B0) (map2 ?g ?A1 ?B1)
      = map2 ?g (map2 (\<lambda>x y. ?c * (x + y)) ?A0 ?A1) (map2 (\<lambda>x y. ?c * (x + y)) ?B0 ?B1)"
    by (rule nth_equalityI) (use L in \<open>auto simp: algebra_simps\<close>)
  have m: "map2 (\<lambda>x y. ?c * (x - y)) (map2 ?g ?A0 ?B0) (map2 ?g ?A1 ?B1)
      = map2 ?g (map2 (\<lambda>x y. ?c * (x - y)) ?A0 ?A1) (map2 (\<lambda>x y. ?c * (x - y)) ?B0 ?B1)"
    by (rule nth_equalityI) (use L in \<open>auto simp: algebra_simps\<close>)
  have rhs: "map2 ?g (fwht (Suc n) a) (fwht (Suc n) b)
      = map2 ?g (map2 (\<lambda>x y. ?c * (x + y)) ?A0 ?A1) (map2 (\<lambda>x y. ?c * (x + y)) ?B0 ?B1)
      @ map2 ?g (map2 (\<lambda>x y. ?c * (x - y)) ?A0 ?A1) (map2 (\<lambda>x y. ?c * (x - y)) ?B0 ?B1)"
    using L by (simp add: Let_def)
  show ?case unfolding lhs rhs p m ..
qed

lemma map2_map2:
  "map2 h (map2 g1 u w) (map2 g2 u w) = map2 (\<lambda>x y. h (g1 x y) (g2 x y)) u w"
  by (rule nth_equalityI) auto

lemma map2_first: "length u = length w \<Longrightarrow> map2 (\<lambda>x y. x) u w = u"
  by (rule nth_equalityI) auto

lemma map2_second: "length u = length w \<Longrightarrow> map2 (\<lambda>x y. y) u w = w"
  by (rule nth_equalityI) auto

lemma fwht_involution: "length v = 2 ^ n \<Longrightarrow> fwht n (fwht n v) = v"
proof (induction n arbitrary: v)
  case 0
  show ?case by simp
next
  case (Suc n)
  let ?c = "complex_of_real SQRT1_2"
  let ?u = "take (2 ^ n) v" and ?w = "drop (2 ^ n) v"
  have l: "length ?u = 2 ^ n" "length ?w = 2 ^ n" using Suc.prems by auto
  let ?a = "fwht n ?u" and ?b = "fwht n ?w"
  have L: "length ?a = 2 ^ n" "length ?b = 2 ^ n" using l by (simp_all add: length_fwht)
  let ?X = "map2 (\<lambda>x y. ?c * (x + y)) ?a ?b" and ?Y = "map2 (\<lambda>x y. ?c * (x - y)) ?a ?b"
  have lX: "length ?X = 2 ^ n" using L by simp
  have X: "?X = map2 (\<lambda>x y. ?c * x + ?c * y) ?a ?b" by (simp add: algebra_simps)
  have Y: "?Y = map2 (\<lambda>x y. ?c * x + (- ?c) * y) ?a ?b" by (simp add: algebra_simps)
  have fX: "fwht n ?X = map2 (\<lambda>x y. ?c * x + ?c * y) ?u ?w"
    unfolding X fwht_lin[OF L] Suc.IH[OF l(1)] Suc.IH[OF l(2)] ..
  have fY: "fwht n ?Y = map2 (\<lambda>x y. ?c * x + (- ?c) * y) ?u ?w"
    unfolding Y fwht_lin[OF L] Suc.IH[OF l(1)] Suc.IH[OF l(2)] ..
  have cc: "?c * ?c = 1 / 2"
    using SQRT1_2_sq by (metis of_real_mult of_real_divide of_real_1 of_real_numeral)
  have e1: "?c * (?c * x + ?c * y + (?c * x + - ?c * y)) = x" for x y
  proof -
    have "?c * (?c * x + ?c * y + (?c * x + - ?c * y)) = (?c * ?c) * (2 * x)"
      by (simp add: algebra_simps)
    then show ?thesis by (simp add: cc)
  qed
  have e2: "?c * (?c * x + ?c * y - (?c * x + - ?c * y)) = y" for x y
  proof -
    have "?c * (?c * x + ?c * y - (?c * x + - ?c * y)) = (?c * ?c) * (2 * y)"
      by (simp add: algebra_simps)
    then show ?thesis by (simp add: cc)
  qed
  have "fwht (Suc n) (fwht (Suc n) v) = fwht (Suc n) (?X @ ?Y)"
    by (simp add: Let_def)
  also have "\<dots> = map2 (\<lambda>x y. ?c * (x + y)) (fwht n ?X) (fwht n ?Y)
                  @ map2 (\<lambda>x y. ?c * (x - y)) (fwht n ?X) (fwht n ?Y)"
    using lX by (simp add: Let_def)
  also have "map2 (\<lambda>x y. ?c * (x + y)) (fwht n ?X) (fwht n ?Y) = ?u"
    unfolding fX fY map2_map2 e1 using l by (simp only: map2_first)
  also have "map2 (\<lambda>x y. ?c * (x - y)) (fwht n ?X) (fwht n ?Y) = ?w"
    unfolding fX fY map2_map2 e2 using l by (simp only: map2_second)
  finally show ?case by simp
qed

lemma dot_onehot:
  assumes "j < p" "length row = p"
  shows "dot row (onehot p j) = complex_of_real (row ! j)"
proof -
  have "dot row (onehot p j) = (\<Sum>i = 0..<p. complex_of_real (row ! i) * onehot p j ! i)"
    using assms by (simp add: dot_sum onehot_def)
  also have "\<dots> = (\<Sum>i = 0..<p. if i = j then complex_of_real (row ! i) else 0)"
    by (rule sum.cong) (auto simp: onehot_nth)
  also have "\<dots> = complex_of_real (row ! j)"
    using assms(1) by simp
  finally show ?thesis .
qed

lemma matvec_onehot:
  assumes "shape_is M m p" "j < p"
  shows "matvec M (onehot p j) = map (\<lambda>row. complex_of_real (row ! j)) M"
proof -
  have "dot row (onehot p j) = complex_of_real (row ! j)" if "row \<in> set M" for row
    using dot_onehot[OF assms(2)] assms(1) that by (simp add: shape_is_def list_all_iff)
  then show ?thesis by (simp add: matvec_dot)
qed

lemma dot_column:
  assumes "length row = length M"
  shows "dot row (map (\<lambda>r. complex_of_real (r ! j)) M)
     = complex_of_real (sum_list (map (\<lambda>k. row ! k * M ! k ! j) [0..<length M]))"
proof -
  have "dot row (map (\<lambda>r. complex_of_real (r ! j)) M)
      = (\<Sum>k = 0..<length M. complex_of_real (row ! k) * map (\<lambda>r. complex_of_real (r ! j)) M ! k)"
    using assms by (simp add: dot_sum)
  also have "\<dots> = (\<Sum>k = 0..<length M. complex_of_real (row ! k * M ! k ! j))"
    by (rule sum.cong) auto
  also have "\<dots> = complex_of_real (\<Sum>k = 0..<length M. row ! k * M ! k ! j)"
    by simp
  also have "(\<Sum>k = 0..<length M. row ! k * M ! k ! j)
      = sum_list (map (\<lambda>k. row ! k * M ! k ! j) [0..<length M])"
    by (simp add: interv_sum_list_conv_sum_set_nat)
  finally show ?thesis .
qed

lemma ncols_had: "ncols (had n) = 2 ^ n"
proof -
  have "length (had n) = 2 ^ n" and r: "\<forall>row \<in> set (had n). length row = 2 ^ n"
    using shape_is_had[of n] by (auto simp: shape_is_def list_all_iff)
  then obtain r0 rs where "had n = r0 # rs" by (cases "had n") auto
  then show ?thesis using r by (simp add: ncols_def)
qed

lemma had_self_inverse: "mat_mult (had n) (had n) = identity (2 ^ n)"
proof -
  let ?H = "had n" and ?p = "2 ^ n :: nat"
  have sh: "shape_is ?H ?p ?p" by (rule shape_is_had)
  then have lH: "length ?H = ?p" and rows: "\<And>row. row \<in> set ?H \<Longrightarrow> length row = ?p"
    by (auto simp: shape_is_def list_all_iff)
  have entry: "sum_list (map (\<lambda>k. ?H ! i ! k * ?H ! k ! j) [0..<?p]) = (if i = j then 1 else 0)"
    if i: "i < ?p" and j: "j < ?p" for i j
  proof -
    let ?col = "map (\<lambda>r. complex_of_real (r ! j)) ?H"
    have li: "length (?H ! i) = length ?H" using rows[of "?H ! i"] i lH by simp
    have "complex_of_real (sum_list (map (\<lambda>k. ?H ! i ! k * ?H ! k ! j) [0..<?p]))
        = dot (?H ! i) ?col"
      using dot_column[OF li, of j] lH by simp
    also have "\<dots> = matvec ?H ?col ! i"
      using i lH by (simp add: matvec_dot)
    also have "?col = matvec ?H (onehot ?p j)"
      using matvec_onehot[OF sh j] by simp
    also have "matvec ?H (matvec ?H (onehot ?p j)) = onehot ?p j"
      by (simp add: matvec_had length_fwht fwht_involution onehot_def)
    finally have "complex_of_real (sum_list (map (\<lambda>k. ?H ! i ! k * ?H ! k ! j) [0..<?p]))
        = complex_of_real (if i = j then 1 else 0)"
      using i by (simp add: onehot_nth)
    then show ?thesis by (simp only: of_real_eq_iff)
  qed
  show ?thesis
    unfolding mat_mult_def identity_def ncols_had lH
  proof (rule nth_equalityI)
    show "length (map (\<lambda>row. map (\<lambda>j. sum_list (map (\<lambda>k. row ! k * ?H ! k ! j) [0..<?p])) [0..<?p]) ?H)
        = length (map (\<lambda>i. map (\<lambda>j. if i = j then 1 else 0) [0..<?p]) [0..<?p])"
      using lH by simp
  next
    fix i
    assume "i < length (map (\<lambda>row. map (\<lambda>j. sum_list (map (\<lambda>k. row ! k * ?H ! k ! j) [0..<?p])) [0..<?p]) ?H)"
    then have i: "i < ?p" using lH by simp
    have "map (\<lambda>j. sum_list (map (\<lambda>k. ?H ! i ! k * ?H ! k ! j) [0..<?p])) [0..<?p]
        = map (\<lambda>j. if i = j then 1 else 0) [0..<?p]"
      using entry[OF i] by simp
    then show "map (\<lambda>row. map (\<lambda>j. sum_list (map (\<lambda>k. row ! k * ?H ! k ! j) [0..<?p])) [0..<?p]) ?H ! i
        = map (\<lambda>i. map (\<lambda>j. if i = j then 1 else 0) [0..<?p]) [0..<?p] ! i"
      using i lH by simp
  qed
qed

lemma kron_entry:
  assumes "row \<in> set (kron A B)" "x \<in> set row"
  shows "\<exists>ra rb a b. ra \<in> set A \<and> rb \<in> set B \<and> a \<in> set ra \<and> b \<in> set rb \<and> x = a * b"
  using assms by (auto simp: kron_def) blast

lemma had_entries: "row \<in> set (had n) \<Longrightarrow> x \<in> set row \<Longrightarrow> \<bar>x\<bar> = 1 / sqrt (2 ^ n)"
proof (induction n arbitrary: row x)
  case 0
  then show ?case by simp
next
  case (Suc n)
  from kron_entry[of row H2 "had n" x] Suc.prems obtain ra rb a b where
    ra: "ra \<in> set H2" and rb: "rb \<in> set (had n)" and a: "a \<in> set ra" and b: "b \<in> set rb"
    and x: "x = a * b" by auto
  have "\<bar>a\<bar> = 1 / sqrt 2" using ra a by (auto simp: H2_def SQRT1_2_def)
  moreover have "\<bar>b\<bar> = 1 / sqrt (2 ^ n)" using Suc.IH[OF rb b] .
  ultimately show ?case by (simp add: x abs_mult real_sqrt_mult)
qed

text \<open>
  C6: for every \<open>p = 2 ^ n\<close>, \<^const>\<open>hadamard\<close> returns a \<open>p \<times> p\<close> matrix \<open>H\<close> that is built by
  the recursion \<open>H(1) = [[1]]\<close>, \<open>H(2) = (1/\<surd>2) [[1, 1], [1, -1]]\<close>,
  \<open>H(p) = H(2) \<otimes> H(p/2)\<close>, whose product with itself is the identity matrix and whose
  entries all have the magnitude \<open>1/\<surd>p\<close>.
\<close>

theorem hadamard_self_inverse:
  "\<exists>H. hadamard (2 ^ n) = Inr H \<and> shape_is H (2 ^ n) (2 ^ n)
      \<and> mat_mult H H = identity (2 ^ n)
      \<and> list_all (list_all (\<lambda>x. \<bar>x\<bar> = 1 / sqrt (2 ^ n))) H
      \<and> (n = 0 \<longrightarrow> H = [[1]])
      \<and> (n = 1 \<longrightarrow> H = [[1 / sqrt 2, 1 / sqrt 2], [1 / sqrt 2, - (1 / sqrt 2)]])
      \<and> (1 < n \<longrightarrow> (\<exists>H2' Hp. hadamard 2 = Inr H2' \<and> hadamard (2 ^ n div 2) = Inr Hp
                         \<and> H = kron H2' Hp))"
proof -
  have e: "list_all (list_all (\<lambda>x. \<bar>x\<bar> = 1 / sqrt (2 ^ n))) (had n)"
    using had_entries by (auto simp: list_all_iff)
  have r0: "n = 0 \<longrightarrow> had n = [[1]]" by simp
  have r1: "n = 1 \<longrightarrow> had n = [[1 / sqrt 2, 1 / sqrt 2], [1 / sqrt 2, - (1 / sqrt 2)]]"
    using kron_H2_1 by (auto simp: H2_def SQRT1_2_def)
  have r2: "1 < n \<longrightarrow> (\<exists>H2' Hp. hadamard 2 = Inr H2' \<and> hadamard (2 ^ n div 2) = Inr Hp
                         \<and> had n = kron H2' Hp)"
  proof
    assume "1 < n"
    then obtain m where m: "n = Suc m" by (cases n) auto
    have "hadamard (2 ^ n div 2) = Inr (had m)" using hadamard_pow[of m] m by simp
    then show "\<exists>H2' Hp. hadamard 2 = Inr H2' \<and> hadamard (2 ^ n div 2) = Inr Hp
                         \<and> had n = kron H2' Hp"
      using hadamard_2 m by simp
  qed
  show ?thesis
    using hadamard_pow[of n] shape_is_had[of n] had_self_inverse[of n] e r0 r1 r2 by blast
qed

theorem hadamard_self_inverse_witness:
  "(\<exists>H. hadamard 4 = Inr H \<and> shape_is H 4 4 \<and> mat_mult H H = identity 4
      \<and> list_all (list_all (\<lambda>x. \<bar>x\<bar> = 1 / 2)) H
      \<and> (\<exists>H2' Hp. hadamard 2 = Inr H2' \<and> hadamard 2 = Inr Hp \<and> H = kron H2' Hp))
   \<and> (\<exists>H. hadamard 2 = Inr H \<and> mat_mult H H = identity 2
      \<and> H = [[1 / sqrt 2, 1 / sqrt 2], [1 / sqrt 2, - (1 / sqrt 2)]])
   \<and> (\<exists>H. hadamard 1 = Inr H \<and> mat_mult H H = identity 1 \<and> H = [[1]])"
  using hadamard_self_inverse[of 2] hadamard_self_inverse[of 1] hadamard_self_inverse[of 0]
  by simp

section \<open>Bounds on pi and the number of iterations\<close>

lemma sin_coeffs:
  "sin_coeff (Suc 0) = 1" "sin_coeff 2 = 0" "sin_coeff 3 = - 1 / 6" "sin_coeff 4 = 0"
  "sin_coeff 5 = 1 / 120" "sin_coeff 6 = 0" "sin_coeff 7 = - 1 / 5040" "sin_coeff 8 = 0"
  "sin_coeff 9 = 1 / 362880" "sin_coeff 10 = 0" "sin_coeff 11 = - 1 / 39916800"
  by (simp_all add: sin_coeff_def fact_numeral)

lemma sin_poly_12:
  "(\<Sum>m<12. sin_coeff m * x ^ m)
     = x - x ^ 3 / 6 + x ^ 5 / 120 - x ^ 7 / 5040 + x ^ 9 / 362880 - x ^ 11 / 39916800"
  by (simp add: lessThan_nat_numeral lessThan_Suc sin_coeffs)

lemma sin_3_pos: "0 < sin (3::real)"
proof -
  have b: "\<bar>sin (3::real) - (\<Sum>m<12. sin_coeff m * 3 ^ m)\<bar> \<le> inverse (fact 12) * \<bar>3\<bar> ^ 12"
    by (rule Maclaurin_sin_bound)
  have f: "(fact 12 :: real) = 479001600" by (simp add: fact_numeral)
  have "(\<Sum>m<12. sin_coeff m * (3::real) ^ m) - inverse (fact 12) * \<bar>3\<bar> ^ 12 > 0"
    unfolding sin_poly_12 f by simp
  then show ?thesis using b by linarith
qed

lemma sin_19_6_neg: "sin (19 / 6 :: real) < 0"
proof -
  have b: "\<bar>sin (19 / 6 :: real) - (\<Sum>m<12. sin_coeff m * (19 / 6) ^ m)\<bar>
      \<le> inverse (fact 12) * \<bar>19 / 6\<bar> ^ 12"
    by (rule Maclaurin_sin_bound)
  have f: "(fact 12 :: real) = 479001600" by (simp add: fact_numeral)
  have "(\<Sum>m<12. sin_coeff m * (19 / 6 :: real) ^ m) + inverse (fact 12) * \<bar>19 / 6\<bar> ^ 12 < 0"
    unfolding sin_poly_12 f by (simp add: power_divide)
  then show ?thesis using b by linarith
qed

lemma pi_gt_3: "3 < pi"
proof (rule ccontr)
  assume "\<not> 3 < pi"
  then have "pi \<le> 3" by simp
  moreover have "(3::real) < 2 * pi" using pi_ge_two by linarith
  ultimately have "sin (3::real) \<le> 0" by (rule sin_le_zero)
  then show False using sin_3_pos by linarith
qed

lemma pi_lt_19_6: "pi < 19 / 6"
proof (rule ccontr)
  assume "\<not> pi < 19 / 6"
  then have "19 / 6 \<le> pi" by simp
  then have "0 \<le> sin (19 / 6 :: real)" by (intro sin_ge_zero) auto
  then show False using sin_19_6_neg by linarith
qed

lemma sqrt2_bounds: "141 / 100 < sqrt 2" "sqrt 2 < 1415 / 1000"
proof -
  show "141 / 100 < sqrt 2" by (rule real_less_rsqrt) (simp add: power2_eq_square)
  show "sqrt 2 < 1415 / 1000" by (rule real_less_lsqrt) (simp_all add: power2_eq_square)
qed

lemma sqrt_pow_even: "sqrt (2 ^ (2 * k)) = 2 ^ k"
  by (simp add: power_mult real_sqrt_unique power2_eq_square power_mult_distrib[symmetric])

lemma sqrt_pow_odd: "sqrt (2 ^ Suc (2 * k)) = 2 ^ k * sqrt 2"
proof -
  have "sqrt (2 ^ Suc (2 * k)) = sqrt 2 * sqrt (2 ^ (2 * k))"
    by (simp add: real_sqrt_mult)
  then show ?thesis by (simp add: sqrt_pow_even)
qed

lemma sqrt_pows:
  "sqrt (2 ^ 2) = 2" "sqrt (2 ^ 3) = 2 * sqrt 2" "sqrt (2 ^ 4) = 4"
  "sqrt (2 ^ 5) = 4 * sqrt 2" "sqrt (2 ^ 6) = 8" "sqrt (2 ^ 7) = 8 * sqrt 2"
  using sqrt_pow_even[of 1] sqrt_pow_odd[of 1] sqrt_pow_even[of 2] sqrt_pow_odd[of 2]
        sqrt_pow_even[of 3] sqrt_pow_odd[of 3]
  by (simp_all add: eval_nat_numeral)

lemma floor_nat_eq: "real k \<le> x \<Longrightarrow> x < real k + 1 \<Longrightarrow> nat \<lfloor>x\<rfloor> = k"
proof -
  assume "real k \<le> x" "x < real k + 1"
  then have "\<lfloor>x\<rfloor> = int k" by (intro floor_unique) auto
  then show ?thesis by simp
qed

lemma mult_bounds:
  fixes a b :: real
  assumes "la \<le> a" "a \<le> ua" "lb \<le> b" "b \<le> ub" "0 \<le> la" "0 \<le> lb"
  shows "la * lb \<le> a * b" "a * b \<le> ua * ub"
proof -
  show "la * lb \<le> a * b" using assms by (intro mult_mono) auto
  show "a * b \<le> ua * ub" using assms by (intro mult_mono) auto
qed

lemma pi_sqrt2_bounds: "423 / 100 \<le> pi * sqrt 2" "pi * sqrt 2 \<le> 19 / 6 * (1415 / 1000)"
  using mult_bounds[of 3 pi "19 / 6" "141 / 100" "sqrt 2" "1415 / 1000"]
    pi_gt_3 pi_lt_19_6 sqrt2_bounds by simp_all

lemma grover_iterations:
  "nat \<lfloor>pi * sqrt (2 ^ 2) / 4\<rfloor> = 1" "nat \<lfloor>pi * sqrt (2 ^ 3) / 4\<rfloor> = 2"
  "nat \<lfloor>pi * sqrt (2 ^ 4) / 4\<rfloor> = 3" "nat \<lfloor>pi * sqrt (2 ^ 5) / 4\<rfloor> = 4"
  "nat \<lfloor>pi * sqrt (2 ^ 6) / 4\<rfloor> = 6" "nat \<lfloor>pi * sqrt (2 ^ 7) / 4\<rfloor> = 8"
proof -
  show "nat \<lfloor>pi * sqrt (2 ^ 2) / 4\<rfloor> = 1"
    unfolding sqrt_pows by (rule floor_nat_eq) (use pi_gt_3 pi_lt_19_6 in simp_all)
  show "nat \<lfloor>pi * sqrt (2 ^ 3) / 4\<rfloor> = 2"
    unfolding sqrt_pows by (rule floor_nat_eq) (use pi_sqrt2_bounds in simp_all)
  show "nat \<lfloor>pi * sqrt (2 ^ 4) / 4\<rfloor> = 3"
    unfolding sqrt_pows by (rule floor_nat_eq) (use pi_gt_3 pi_lt_19_6 in simp_all)
  show "nat \<lfloor>pi * sqrt (2 ^ 5) / 4\<rfloor> = 4"
    unfolding sqrt_pows by (rule floor_nat_eq) (use pi_sqrt2_bounds in simp_all)
  show "nat \<lfloor>pi * sqrt (2 ^ 6) / 4\<rfloor> = 6"
    unfolding sqrt_pows by (rule floor_nat_eq) (use pi_gt_3 pi_lt_19_6 in simp_all)
  show "nat \<lfloor>pi * sqrt (2 ^ 7) / 4\<rfloor> = 8"
    unfolding sqrt_pows by (rule floor_nat_eq) (use pi_sqrt2_bounds in simp_all)
qed

section \<open>Grover's loop\<close>

lemma spike_nth: "j < p \<Longrightarrow> spike p m a b ! j = (if j = m then a else b)"
  by (simp add: spike_def nth_list_update)

lemma length_spike: "length (spike p m a b) = p"
  by (simp add: spike_def)

lemma spike_same: "spike p m b b = replicate p b"
  by (cases "m < p") (auto intro!: nth_equalityI simp: spike_def nth_list_update)

lemma oracle_vec_spike:
  assumes "m < p"
  shows "oracle_vec ((replicate p 0)[m := 1]) (spike p m a b) = spike p m (- a) b"
proof (rule nth_equalityI)
  show "length (oracle_vec ((replicate p 0)[m := 1]) (spike p m a b)) = length (spike p m (- a) b)"
    by (simp add: oracle_vec_def spike_def)
next
  fix j assume "j < length (oracle_vec ((replicate p 0)[m := 1]) (spike p m a b))"
  then have j: "j < p" by (simp add: oracle_vec_def spike_def)
  then show "oracle_vec ((replicate p 0)[m := 1]) (spike p m a b) ! j = spike p m (- a) b ! j"
    using assms by (simp add: oracle_vec_def spike_def nth_list_update)
qed

lemma sum_spike:
  assumes "m < p"
  shows "(\<Sum>j = 0..<p. spike p m a b ! j) = a + (of_nat p - 1) * b"
proof -
  have "(\<Sum>j = 0..<p. spike p m a b ! j) = (\<Sum>j = 0..<p. (if j = m then a - b else 0) + b)"
    by (rule sum.cong) (auto simp: spike_nth)
  also have "\<dots> = (\<Sum>j = 0..<p. if j = m then a - b else 0) + (\<Sum>j = 0..<p. b)"
    by (rule sum.distrib)
  also have "\<dots> = (a - b) + of_nat p * b"
    using assms by simp
  finally show ?thesis by (simp add: algebra_simps)
qed

lemma matvec_r_gate:
  assumes "length v = p"
  shows "matvec (r_gate p) v
     = map (\<lambda>i. complex_of_real (2 / real p) * (\<Sum>j = 0..<p. v ! j) - v ! i) [0..<p]"
proof (rule nth_equalityI)
  show "length (matvec (r_gate p) v)
      = length (map (\<lambda>i. complex_of_real (2 / real p) * (\<Sum>j = 0..<p. v ! j) - v ! i) [0..<p])"
    by (simp add: matvec_def r_gate_def)
next
  fix i assume "i < length (matvec (r_gate p) v)"
  then have i: "i < p" by (simp add: matvec_def r_gate_def)
  let ?row = "map (\<lambda>j. 2 / real p * 1 - (if i = j then 1 else 0)) [0..<p]"
  have "matvec (r_gate p) v ! i = dot ?row v"
    using i by (simp add: matvec_dot r_gate_def)
  also have "\<dots> = (\<Sum>j = 0..<p. complex_of_real (?row ! j) * v ! j)"
    using assms by (simp add: dot_sum)
  also have "\<dots> = (\<Sum>j = 0..<p. complex_of_real (2 / real p) * v ! j
                                  - (if j = i then v ! j else 0))"
    by (rule sum.cong) (auto simp: algebra_simps)
  also have "\<dots> = (\<Sum>j = 0..<p. complex_of_real (2 / real p) * v ! j)
                  - (\<Sum>j = 0..<p. if j = i then v ! j else 0)"
    by (rule sum_subtractf)
  also have "\<dots> = complex_of_real (2 / real p) * (\<Sum>j = 0..<p. v ! j) - v ! i"
    using i by (simp add: sum_distrib_left)
  finally show "matvec (r_gate p) v ! i
      = map (\<lambda>i. complex_of_real (2 / real p) * (\<Sum>j = 0..<p. v ! j) - v ! i) [0..<p] ! i"
    using i by simp
qed

lemma matvec_r_gate_spike:
  assumes "m < p"
  shows "matvec (r_gate p) (spike p m a b)
     = spike p m (complex_of_real (2 / real p) * (a + (of_nat p - 1) * b) - a)
                 (complex_of_real (2 / real p) * (a + (of_nat p - 1) * b) - b)"
proof -
  let ?s = "complex_of_real (2 / real p) * (a + (of_nat p - 1) * b)"
  have mv: "matvec (r_gate p) (spike p m a b) = map (\<lambda>i. ?s - spike p m a b ! i) [0..<p]"
    unfolding matvec_r_gate[OF length_spike] sum_spike[OF assms] ..
  show ?thesis
  proof (rule nth_equalityI)
    show "length (matvec (r_gate p) (spike p m a b)) = length (spike p m (?s - a) (?s - b))"
      by (simp add: mv length_spike)
  next
    fix i assume "i < length (matvec (r_gate p) (spike p m a b))"
    then have i: "i < p" by (simp add: mv)
    then show "matvec (r_gate p) (spike p m a b) ! i = spike p m (?s - a) (?s - b) ! i"
      unfolding mv by (simp add: spike_nth)
  qed
qed

lemma grover_step_spike:
  assumes "m < 2 ^ n" and D: "phase_oracle ((replicate (2 ^ n) 0)[m := 1]) = Inr D"
  shows "grover_steps D (Suc k) \<lparr>qr_n = n, qr_state = spike (2 ^ n) m (complex_of_real x) (complex_of_real y)\<rparr>
     = grover_steps D k \<lparr>qr_n = n, qr_state =
         spike (2 ^ n) m (complex_of_real (fst (grover_amp (2 ^ n) (x, y))))
                         (complex_of_real (snd (grover_amp (2 ^ n) (x, y))))\<rparr>"
proof -
  let ?p = "2 ^ n :: nat"
  let ?f = "(replicate ?p 0)[m := 1] :: int list"
  let ?q = "\<lparr>qr_n = n, qr_state = spike ?p m (complex_of_real x) (complex_of_real y)\<rparr>"
  let ?q1 = "\<lparr>qr_n = n, qr_state = spike ?p m (- complex_of_real x) (complex_of_real y)\<rparr>"
  have a: "qr_apply ?q (map (map complex_of_real) D) = Inr ?q1"
    using shape_is_phase_oracle[OF D] matvec_phase_oracle[OF D, of "spike ?p m (complex_of_real x) (complex_of_real y)"]
    by (simp add: qr_apply_real qr_p_def length_spike oracle_vec_spike[OF assms(1)])
  have r: "qr_r ?q1 = Inr \<lparr>qr_n = n, qr_state =
         spike ?p m (complex_of_real (fst (grover_amp (2 ^ n) (x, y))))
                    (complex_of_real (snd (grover_amp (2 ^ n) (x, y))))\<rparr>"
    by (simp add: qr_r_eq qr_p_def matvec_r_gate_spike[OF assms(1)] grover_amp_def Let_def
        algebra_simps)
  show ?thesis by (simp add: a r)
qed

lemma grover_steps_spike:
  assumes "m < 2 ^ n" and D: "phase_oracle ((replicate (2 ^ n) 0)[m := 1]) = Inr D"
  shows "grover_steps D k \<lparr>qr_n = n, qr_state = spike (2 ^ n) m (complex_of_real x) (complex_of_real y)\<rparr>
     = Inr \<lparr>qr_n = n, qr_state =
         spike (2 ^ n) m (complex_of_real (fst ((grover_amp (2 ^ n) ^^ k) (x, y))))
                         (complex_of_real (snd ((grover_amp (2 ^ n) ^^ k) (x, y))))\<rparr>"
proof (induction k arbitrary: x y)
  case 0
  show ?case by simp
next
  case (Suc k)
  show ?case
    unfolding grover_step_spike[OF assms] Suc.IH funpow_Suc_right by simp
qed

end
